theory Spec2Isabelle
  imports Complex_Main "HOL-Library.AList"
begin

section \<open>Numbers\<close>

text \<open>
  The values flowing through the sequence generator are JavaScript numbers. The model
  keeps the integers (JavaScript represents them exactly up to \<open>2 ^ 53\<close>) and the
  one non-integer the code can produce from integers, \<open>NaN\<close>: \<open>parseInt\<close> of a
  character that is not a digit.
\<close>

datatype jsnum = Num int | NaN

text \<open>\<open>a + b\<close>, \<open>a * b\<close>, \<open>a > b\<close> and \<open>a !== b\<close> of the source.\<close>

fun js_add :: "jsnum \<Rightarrow> jsnum \<Rightarrow> jsnum" where
  "js_add (Num a) (Num b) = Num (a + b)"
| "js_add _ _ = NaN"

fun js_mul :: "jsnum \<Rightarrow> jsnum \<Rightarrow> jsnum" where
  "js_mul (Num a) (Num b) = Num (a * b)"
| "js_mul _ _ = NaN"

fun js_gt :: "jsnum \<Rightarrow> jsnum \<Rightarrow> bool" where
  "js_gt (Num a) (Num b) = (a > b)"
| "js_gt _ _ = False"

fun js_strict_neq :: "jsnum \<Rightarrow> jsnum \<Rightarrow> bool" where
  "js_strict_neq (Num a) (Num b) = (a \<noteq> b)"
| "js_strict_neq _ _ = True"

text \<open>
  \<open>String(num)\<close>: the decimal digits, most significant first, after a minus sign for a
  negative number; \<open>NaN\<close> prints as the three letters.
\<close>

function nat_digits :: "nat \<Rightarrow> string" where
  "nat_digits n =
     (if n < 10 then [char_of (48 + n)]
      else nat_digits (n div 10) @ [char_of (48 + n mod 10)])"
  by pat_completeness auto
termination
  by (relation "measure id") auto

fun String_js :: "jsnum \<Rightarrow> string" where
  "String_js (Num n) =
     (if n < 0 then CHR ''-'' # nat_digits (nat (- n)) else nat_digits (nat n))"
| "String_js NaN = ''NaN''"

text \<open>\<open>parseInt(digit)\<close> on a one-character string.\<close>

definition parseInt :: "char \<Rightarrow> jsnum" where
  "parseInt c =
     (let k = (of_char c :: nat)
      in if 48 \<le> k \<and> k \<le> 57 then Num (int k - 48) else NaN)"

text \<open>
  The body of \<open>collapseDigits\<close> before its recursive call:
  \<^verbatim>\<open>String(num).split('').reduce((acc, digit) => acc + parseInt(digit), 0)\<close>
\<close>

definition digit_sum :: "jsnum \<Rightarrow> jsnum" where
  "digit_sum num = foldl (\<lambda>acc digit. js_add acc (parseInt digit)) (Num 0) (String_js num)"

text \<open>The digit sum as arithmetic, to reason about \<open>digit_sum\<close> on non-negative integers.\<close>

function digits_total :: "nat \<Rightarrow> nat" where
  "digits_total n = (if n < 10 then n else digits_total (n div 10) + n mod 10)"
  by pat_completeness auto
termination
  by (relation "measure id") auto

declare nat_digits.simps [simp del]
declare digits_total.simps [simp del]

lemma parseInt_digit: "d < 10 \<Longrightarrow> parseInt (char_of (48 + d)) = Num (int d)"
  by (simp add: parseInt_def Let_def)

lemma foldl_digits:
  "foldl (\<lambda>acc digit. js_add acc (parseInt digit)) (Num a) (nat_digits n)
     = Num (a + int (digits_total n))"
proof (induction n arbitrary: a rule: nat_digits.induct)
  case (1 n)
  show ?case
  proof (cases "n < 10")
    case True
    then show ?thesis
      by (simp add: nat_digits.simps [of n] digits_total.simps [of n] parseInt_digit)
  next
    case False
    have "n mod 10 < 10" by simp
    then have "parseInt (char_of (48 + n mod 10)) = Num (int (n mod 10))"
      by (rule parseInt_digit)
    with False "1.IH" [of a] show ?thesis
      by (simp add: nat_digits.simps [of n] digits_total.simps [of n])
  qed
qed

lemma foldl_NaN: "foldl (\<lambda>acc digit. js_add acc (parseInt digit)) NaN cs = NaN"
  by (induction cs) simp_all

lemma digit_sum_nonneg: "0 \<le> n \<Longrightarrow> digit_sum (Num n) = Num (int (digits_total (nat n)))"
  by (simp add: digit_sum_def foldl_digits)

lemma parseInt_minus: "parseInt CHR ''-'' = NaN"
  by (simp add: parseInt_def)

lemma digit_sum_neg: "n < 0 \<Longrightarrow> digit_sum (Num n) = NaN"
  by (simp add: digit_sum_def parseInt_minus foldl_NaN)

lemma digit_sum_NaN: "digit_sum NaN = NaN"
  by (simp add: digit_sum_def parseInt_def)

lemma digits_total_step:
  "\<not> n < 10 \<Longrightarrow> digits_total n = digits_total (n div 10) + n mod 10"
  by (subst digits_total.simps) simp

lemma digits_total_small: "n < 10 \<Longrightarrow> digits_total n = n"
  by (subst digits_total.simps) simp

lemma digits_total_le: "digits_total n \<le> n"
proof (induction n rule: digits_total.induct)
  case (1 n)
  show ?case
  proof (cases "n < 10")
    case True
    then show ?thesis by (simp only: digits_total_small)
  next
    case False
    with "1.IH" have "digits_total (n div 10) \<le> n div 10" by blast
    then have "digits_total (n div 10) + n mod 10 \<le> n div 10 + n mod 10"
      by (rule add_right_mono)
    also have "\<dots> \<le> 10 * (n div 10) + n mod 10"
      by (rule add_right_mono) simp
    also have "\<dots> = n" by (rule mult_div_mod_eq)
    finally show ?thesis by (simp only: digits_total_step [OF False])
  qed
qed

lemma digits_total_less: "10 \<le> n \<Longrightarrow> digits_total n < n"
proof -
  assume a: "10 \<le> n"
  then have q: "0 < n div 10" by (simp add: div_greater_zero_iff)
  have "digits_total (n div 10) \<le> n div 10" by (rule digits_total_le)
  then have "digits_total (n div 10) + n mod 10 \<le> n div 10 + n mod 10"
    by (rule add_right_mono)
  also from q have "\<dots> < 10 * (n div 10) + n mod 10"
    by (intro add_strict_right_mono) simp
  also have "\<dots> = n" by (rule mult_div_mod_eq)
  finally show ?thesis using a by (simp add: digits_total_step)
qed



text \<open>
  \<open>collapseDigits\<close> calls itself on the digit sum while that exceeds 9. The recursive
  call is only reached from a non-negative integer of at least two digits, whose digit
  sum is smaller.
\<close>

function collapseDigits :: "jsnum \<Rightarrow> jsnum" where
  "collapseDigits num =
     (let sum = digit_sum num
      in if js_gt sum (Num 9) then collapseDigits sum else sum)"
  by pat_completeness auto
termination
proof (relation "measure (\<lambda>num. case num of Num n \<Rightarrow> nat n | NaN \<Rightarrow> 0)")
  show "wf (measure (\<lambda>num. case num of Num n \<Rightarrow> nat n | NaN \<Rightarrow> 0))"
    by simp
next
  fix num sum
  assume s: "sum = digit_sum num" and g: "js_gt sum (Num 9)"
  show "(sum, num) \<in> measure (\<lambda>num. case num of Num n \<Rightarrow> nat n | NaN \<Rightarrow> 0)"
  proof (cases num)
    case NaN
    with s g show ?thesis by (simp add: digit_sum_NaN)
  next
    case (Num n)
    show ?thesis
    proof (cases "n < 0")
      case True
      with s g Num show ?thesis by (simp add: digit_sum_neg)
    next
      case False
      then have e: "sum = Num (int (digits_total (nat n)))"
        using s Num by (simp add: digit_sum_nonneg)
      with g have "9 < digits_total (nat n)" by simp
      moreover have "digits_total (nat n) \<le> nat n" by (rule digits_total_le)
      ultimately have "10 \<le> nat n" by arith
      then have "digits_total (nat n) < nat n" by (rule digits_total_less)
      with e Num show ?thesis by simp
    qed
  qed
qed

declare collapseDigits.simps [simp del]

section \<open>Configuration and messages\<close>

text \<open>
  The configuration interfaces. \<open>NodeConfig\<close> extends \<open>PatternConfig\<close>. Their fields
  are typed \<open>number\<close> and \<open>string\<close> in the source, so a configuration with a missing or
  non-numeric field is not a value of these types.
\<close>

record PatternConfig =
  seed :: int
  phaseResetInterval :: int

record NodeConfig = PatternConfig +
  nodeId :: string

text \<open>\<open>data: any\<close> is opaque to the core; a string stands for it.\<close>

record Message =
  senderId :: string
  globalStep :: int
  patternValue :: jsnum
  data :: string

section \<open>Sequence generator (\<open>PatternGenerator\<close>)\<close>

text \<open>
  \<open>a % b\<close> on integers: the remainder takes the sign of the dividend, and a zero
  divisor gives \<open>NaN\<close>. \<open>a === b\<close> is the negation of \<open>a !== b\<close>.
\<close>

definition js_rem :: "int \<Rightarrow> int \<Rightarrow> jsnum" where
  "js_rem a b = (if b = 0 then NaN else Num (sgn a * (\<bar>a\<bar> mod \<bar>b\<bar>)))"

definition js_strict_eq :: "jsnum \<Rightarrow> jsnum \<Rightarrow> bool" where
  "js_strict_eq a b = (\<not> js_strict_neq a b)"

text \<open>
  The generator keeps the two fields of a \<open>PatternConfig\<close>, under the same names, and
  its cache.
\<close>

record PatternGenerator = PatternConfig +
  cache :: "int \<rightharpoonup> jsnum"

text \<open>The constructor stores both arguments as given and starts with an empty cache.\<close>

definition PatternGenerator_new :: "int \<Rightarrow> int \<Rightarrow> PatternGenerator" where
  "PatternGenerator_new s r = \<lparr>seed = s, phaseResetInterval = r, cache = Map.empty\<rparr>"

text \<open>
  \<open>computeValue\<close> returns the value and the generator with its cache grown. The
  recursion on \<open>step - 1\<close> has no bound of its own: with a zero interval and no cached
  step below, it never reaches a base case, and the result is \<open>None\<close>.
\<close>

partial_function (option) computeValue ::
  "PatternGenerator \<Rightarrow> int \<Rightarrow> (jsnum \<times> PatternGenerator) option" where
  "computeValue g step =
     (case cache g step of
        Some v \<Rightarrow> Some (v, g)
      | None \<Rightarrow>
          if js_strict_eq (js_rem step (phaseResetInterval g)) (Num 0) then
            let value = Num (seed g)
            in Some (value, g\<lparr>cache := (cache g)(step \<mapsto> value)\<rparr>)
          else
            Option.bind (computeValue g (step - 1)) (\<lambda>(previousValue, g').
              let value = collapseDigits (js_mul previousValue (Num (seed g')))
              in Some (value, g'\<lparr>cache := (cache g')(step \<mapsto> value)\<rparr>)))"


text \<open>
  The value a generator with seed \<open>s\<close> and a non-zero interval \<open>r\<close> is meant to give
  at a step, without the cache: the seed at the last multiple of \<open>r\<close> at or below the
  step, then one multiply-and-collapse per step since. It is the reference the cached
  computation is compared with.
\<close>

definition next_value :: "int \<Rightarrow> jsnum \<Rightarrow> jsnum" where
  "next_value s previousValue = collapseDigits (js_mul previousValue (Num s))"





section \<open>Observer (\<open>MeshObserver\<close>)\<close>

text \<open>
  An anomaly record \<open>{type, message, expected, received, timestamp}\<close>, and the object
  \<open>getStatistics\<close> returns. \<open>successRate\<close> is a quotient of two counts times 100; the
  model keeps it as an exact rational.
\<close>

datatype anomaly = Anomaly string Message jsnum jsnum int

record statistics =
  totalObserved :: nat
  validMessages :: nat
  anomalies :: nat
  successRate :: rat

datatype observer_listener = OnAnomaly nat | OnValidMessage nat

datatype observer_event = AnomalyEv anomaly | ValidMessageEv Message

record MeshObserver =
  pattern :: PatternGenerator
  eventEmitter :: "observer_listener list"
  observedMessages :: "Message list"
  anomalies :: "anomaly list"

definition MeshObserver_new :: "PatternConfig \<Rightarrow> MeshObserver" where
  "MeshObserver_new config =
     \<lparr>pattern = PatternGenerator_new (seed config)
                  (phaseResetInterval config),
      eventEmitter = [],
      observedMessages = [],
      anomalies = []\<rparr>"

text \<open>
  \<open>observe\<close> takes the reading of \<open>Date.now()\<close> as \<open>now\<close>. It returns the observer
  and the event it emitted.
\<close>

definition observe ::
  "Message \<Rightarrow> int \<Rightarrow> MeshObserver \<Rightarrow> (MeshObserver \<times> observer_event) option" where
  "observe message now ob =
     (case computeValue (MeshObserver.pattern ob) (Message.globalStep message) of
        None \<Rightarrow> None
      | Some (expectedPattern, g') \<Rightarrow>
          if js_strict_neq expectedPattern (patternValue message) then
            let anomaly = Anomaly ''pattern-mismatch'' message expectedPattern
                            (patternValue message) now
            in Some (ob\<lparr>MeshObserver.pattern := g',
                         MeshObserver.anomalies := MeshObserver.anomalies ob @ [anomaly]\<rparr>,
                     AnomalyEv anomaly)
          else
            Some (ob\<lparr>MeshObserver.pattern := g',
                      observedMessages := observedMessages ob @ [message]\<rparr>,
                  ValidMessageEv message))"

definition getStatistics :: "MeshObserver \<Rightarrow> statistics" where
  "getStatistics ob =
     (let totalObserved = length (observedMessages ob) + length (MeshObserver.anomalies ob);
          validMessages = length (observedMessages ob);
          anomalies = length (MeshObserver.anomalies ob);
          successRate = (if totalObserved > 0
                         then (of_nat validMessages / of_nat totalObserved) * 100
                         else 0)
      in \<lparr>totalObserved = totalObserved, validMessages = validMessages,
          anomalies = anomalies, successRate = successRate\<rparr>)"

definition onAnomaly :: "nat \<Rightarrow> MeshObserver \<Rightarrow> MeshObserver" where
  "onAnomaly k ob =
     ob\<lparr>MeshObserver.eventEmitter := MeshObserver.eventEmitter ob @ [OnAnomaly k]\<rparr>"

definition onValidMessage :: "nat \<Rightarrow> MeshObserver \<Rightarrow> MeshObserver" where
  "onValidMessage k ob =
     ob\<lparr>MeshObserver.eventEmitter := MeshObserver.eventEmitter ob @ [OnValidMessage k]\<rparr>"

definition clearHistory :: "MeshObserver \<Rightarrow> MeshObserver" where
  "clearHistory ob = ob\<lparr>observedMessages := [], MeshObserver.anomalies := []\<rparr>"

section \<open>Nodes and the network\<close>

text \<open>
  What an event carries: the message of \<open>broadcast\<close> and \<open>message\<close>, the object
  \<open>{type, message, expected}\<close> of \<open>error\<close>, the step of \<open>sync\<close>.
\<close>

datatype event = BroadcastEv | MessageEv | ErrorEv | SyncEv

datatype payload =
    MessagePayload Message
  | ErrorPayload string Message jsnum
  | StepPayload int

text \<open>
  The listeners of a node's event emitter, in registration order, each under the method
  that registered it. A callback on \<open>broadcast\<close> is either the closure
  \<^verbatim>\<open>(message) => this.broadcast(message, node)\<close> that \<open>createNode\<close> registers
  (\<open>Route\<close>), or a callback of the caller, known by a number. Callbacks of the caller
  are taken to observe only: an invocation is recorded and changes nothing else.
\<close>

datatype callback = Route | User nat

datatype listener = OnBroadcast callback | OnMessage nat | OnError nat | OnSync nat

record MeshNode =
  nodeId :: string
  pattern :: PatternGenerator
  eventEmitter :: "listener list"
  globalStep :: int

text \<open>
  Nodes are objects, shared by reference between the caller and the network's map. The
  state holds every node object at its reference (an index into \<open>heap\<close>), the
  \<open>nodes\<close> map of the one network as an association list in insertion order, and a
  trace of what has happened: calls of \<open>receive\<close>, calls of \<open>emit\<close>, and
  invocations of the caller's callbacks.
\<close>

datatype call =
    Receive nat Message
  | Emit nat event payload
  | Invoke nat nat payload

record state =
  heap :: "MeshNode list"
  nodes :: "(string \<times> nat) list"
  trace :: "call list"

definition MeshNetwork_new :: state where
  "MeshNetwork_new = \<lparr>heap = [], nodes = [], trace = []\<rparr>"

definition node_at :: "state \<Rightarrow> nat \<Rightarrow> MeshNode option" where
  "node_at w node = (if node < length (heap w) then Some (heap w ! node) else None)"

definition put_node :: "nat \<Rightarrow> MeshNode \<Rightarrow> state \<Rightarrow> state" where
  "put_node node n w = w\<lparr>heap := (heap w)[node := n]\<rparr>"

definition record_call :: "call \<Rightarrow> state \<Rightarrow> state" where
  "record_call c w = w\<lparr>trace := trace w @ [c]\<rparr>"

subsection \<open>\<open>MeshNode\<close>\<close>

definition MeshNode_new :: "NodeConfig \<Rightarrow> MeshNode" where
  "MeshNode_new config =
     \<lparr>nodeId = NodeConfig.nodeId config,
      pattern = PatternGenerator_new (seed config)
                  (phaseResetInterval config),
      eventEmitter = [],
      globalStep = 0\<rparr>"

text \<open>
  \<open>emit\<close> for \<open>message\<close>, \<open>error\<close> and \<open>sync\<close>, whose listeners are all callbacks of
  the caller: each one registered for the event is invoked, in registration order.
\<close>

fun user_listener :: "event \<Rightarrow> listener \<Rightarrow> nat option" where
  "user_listener BroadcastEv (OnBroadcast (User k)) = Some k"
| "user_listener MessageEv (OnMessage k) = Some k"
| "user_listener ErrorEv (OnError k) = Some k"
| "user_listener SyncEv (OnSync k) = Some k"
| "user_listener _ _ = None"

definition emit :: "nat \<Rightarrow> event \<Rightarrow> payload \<Rightarrow> state \<Rightarrow> state option" where
  "emit node ev p w =
     (case node_at w node of
        None \<Rightarrow> None
      | Some n \<Rightarrow>
          Some (foldl (\<lambda>w k. record_call (Invoke node k p) w)
                  (record_call (Emit node ev p) w)
                  (List.map_filter (user_listener ev) (eventEmitter n))))"

definition sync :: "nat \<Rightarrow> int \<Rightarrow> state \<Rightarrow> state option" where
  "sync node targetStep w =
     (case node_at w node of
        None \<Rightarrow> None
      | Some n \<Rightarrow>
          if targetStep > MeshNode.globalStep n then
            emit node SyncEv (StepPayload targetStep)
              (put_node node (n\<lparr>MeshNode.globalStep := targetStep\<rparr>) w)
          else Some w)"

definition receive :: "nat \<Rightarrow> Message \<Rightarrow> state \<Rightarrow> state option" where
  "receive node message w =
     (case node_at w node of
        None \<Rightarrow> None
      | Some n \<Rightarrow>
          (case computeValue (pattern n) (Message.globalStep message) of
             None \<Rightarrow> None
           | Some (expectedPattern, g') \<Rightarrow>
               let w' = put_node node (n\<lparr>pattern := g'\<rparr>)
                          (record_call (Receive node message) w)
               in if js_strict_neq expectedPattern (patternValue message) then
                    emit node ErrorEv
                      (ErrorPayload ''pattern-mismatch'' message expectedPattern) w'
                  else
                    Option.bind (sync node (Message.globalStep message) w')
                      (emit node MessageEv (MessagePayload message))))"

definition incrementStep :: "nat \<Rightarrow> state \<Rightarrow> state option" where
  "incrementStep node w =
     (case node_at w node of
        None \<Rightarrow> None
      | Some n \<Rightarrow>
          Some (put_node node (n\<lparr>MeshNode.globalStep := MeshNode.globalStep n + 1\<rparr>) w))"

text \<open>The four registration methods append a listener.\<close>

definition add_listener :: "listener \<Rightarrow> nat \<Rightarrow> state \<Rightarrow> state option" where
  "add_listener l node w =
     (case node_at w node of
        None \<Rightarrow> None
      | Some n \<Rightarrow> Some (put_node node (n\<lparr>eventEmitter := eventEmitter n @ [l]\<rparr>) w))"

definition onBroadcast :: "nat \<Rightarrow> nat \<Rightarrow> state \<Rightarrow> state option" where
  "onBroadcast node k = add_listener (OnBroadcast (User k)) node"

definition onMessage :: "nat \<Rightarrow> nat \<Rightarrow> state \<Rightarrow> state option" where
  "onMessage node k = add_listener (OnMessage k) node"

definition onError :: "nat \<Rightarrow> nat \<Rightarrow> state \<Rightarrow> state option" where
  "onError node k = add_listener (OnError k) node"

definition onSync :: "nat \<Rightarrow> nat \<Rightarrow> state \<Rightarrow> state option" where
  "onSync node k = add_listener (OnSync k) node"

subsection \<open>\<open>MeshNetwork\<close>\<close>

text \<open>
  \<open>MeshNetwork.broadcast\<close>: \<open>forEach\<close> over the map, in insertion order, calling
  \<open>receive\<close> on every node whose key differs from the sender id. An exception in one
  \<open>receive\<close> ends the loop and the call.
\<close>

fun forEach_receive :: "Message \<Rightarrow> (string \<times> nat) list \<Rightarrow> state \<Rightarrow> state option" where
  "forEach_receive message [] w = Some w"
| "forEach_receive message ((nodeId', node) # entries) w =
     (if nodeId' \<noteq> senderId message then
        Option.bind (receive node message w) (forEach_receive message entries)
      else forEach_receive message entries w)"

definition network_broadcast :: "Message \<Rightarrow> state \<Rightarrow> state option" where
  "network_broadcast message w = forEach_receive message (nodes w) w"

text \<open>
  \<open>emit('broadcast', message)\<close>: the listeners on \<open>broadcast\<close> run in registration
  order; the network's closure routes the message, a callback of the caller is recorded.
\<close>

fun run_broadcast_listeners :: "nat \<Rightarrow> Message \<Rightarrow> listener list \<Rightarrow> state \<Rightarrow> state option" where
  "run_broadcast_listeners node message [] w = Some w"
| "run_broadcast_listeners node message (OnBroadcast Route # ls) w =
     Option.bind (network_broadcast message w) (run_broadcast_listeners node message ls)"
| "run_broadcast_listeners node message (OnBroadcast (User k) # ls) w =
     run_broadcast_listeners node message ls
       (record_call (Invoke node k (MessagePayload message)) w)"
| "run_broadcast_listeners node message (_ # ls) w =
     run_broadcast_listeners node message ls w"

definition emit_broadcast :: "nat \<Rightarrow> Message \<Rightarrow> state \<Rightarrow> state option" where
  "emit_broadcast node message w =
     (case node_at w node of
        None \<Rightarrow> None
      | Some n \<Rightarrow>
          run_broadcast_listeners node message (eventEmitter n)
            (record_call (Emit node BroadcastEv (MessagePayload message)) w))"

text \<open>\<open>MeshNode.broadcast\<close>.\<close>

definition broadcast :: "nat \<Rightarrow> string \<Rightarrow> state \<Rightarrow> state option" where
  "broadcast node d w =
     (case node_at w node of
        None \<Rightarrow> None
      | Some n \<Rightarrow>
          (case computeValue (pattern n) (MeshNode.globalStep n) of
             None \<Rightarrow> None
           | Some (value, g') \<Rightarrow>
               let message = \<lparr>senderId = MeshNode.nodeId n,
                              globalStep = MeshNode.globalStep n,
                              patternValue = value,
                              data = d\<rparr>
               in Option.bind
                    (emit_broadcast node message (put_node node (n\<lparr>pattern := g'\<rparr>) w))
                    (incrementStep node)))"

text \<open>
  \<open>createNode\<close> builds the node, registers the routing closure on it and stores it in
  the map: \<open>Map.set\<close> replaces the value of a key already present, where it stands, and
  appends a new key. It returns the new node's reference. Nothing in it inspects the
  configuration.
\<close>

definition createNode :: "NodeConfig \<Rightarrow> state \<Rightarrow> nat \<times> state" where
  "createNode config w =
     (let node = length (heap w);
          n = (MeshNode_new config)\<lparr>eventEmitter := [OnBroadcast Route]\<rparr>
      in (node, w\<lparr>heap := heap w @ [n],
                  nodes := AList.update (NodeConfig.nodeId config) node (nodes w)\<rparr>))"

definition getNode :: "string \<Rightarrow> state \<Rightarrow> nat option" where
  "getNode nodeId' w = map_of (nodes w) nodeId'"

definition removeNode :: "string \<Rightarrow> state \<Rightarrow> state" where
  "removeNode nodeId' w = w\<lparr>nodes := AList.delete nodeId' (nodes w)\<rparr>"

text \<open>\<open>validateNodeConfig\<close> of the validation utilities; no function of the core calls it.\<close>

definition validateNodeConfig :: "NodeConfig \<Rightarrow> bool" where
  "validateNodeConfig config \<longleftrightarrow> phaseResetInterval config > 0"

subsection \<open>Reading the trace\<close>

text \<open>
  The messages \<open>receive\<close> was called with on a node, the events a node emitted, and the
  payloads one callback of the caller was invoked with on a node, each in order.
\<close>

fun received_by :: "nat \<Rightarrow> call \<Rightarrow> Message option" where
  "received_by r (Receive r' m) = (if r' = r then Some m else None)"
| "received_by r _ = None"

fun emitted_by :: "nat \<Rightarrow> call \<Rightarrow> (event \<times> payload) option" where
  "emitted_by r (Emit r' ev p) = (if r' = r then Some (ev, p) else None)"
| "emitted_by r _ = None"

fun invoked_on :: "nat \<Rightarrow> nat \<Rightarrow> call \<Rightarrow> payload option" where
  "invoked_on r k (Invoke r' k' p) = (if r' = r \<and> k' = k then Some p else None)"
| "invoked_on r k _ = None"

definition receive_calls :: "nat \<Rightarrow> call list \<Rightarrow> Message list" where
  "receive_calls r t = List.map_filter (received_by r) t"

definition emits :: "nat \<Rightarrow> call list \<Rightarrow> (event \<times> payload) list" where
  "emits r t = List.map_filter (emitted_by r) t"

definition invocations :: "nat \<Rightarrow> nat \<Rightarrow> call list \<Rightarrow> payload list" where
  "invocations r k t = List.map_filter (invoked_on r k) t"

subsection \<open>Networks built through \<open>createNode\<close>\<close>

text \<open>
  What holds of every state reached from the empty network by calls of the interface
  (shown below as \<open>run_network_ok\<close>): the keys of the map are distinct, no node object
  is stored under two keys, every entry holds an existing node under that node's own
  id, and every node carries the routing closure exactly once.
\<close>

definition network_ok :: "state \<Rightarrow> bool" where
  "network_ok w \<longleftrightarrow>
     distinct (map fst (nodes w)) \<and> distinct (map snd (nodes w))
     \<and> list_all (\<lambda>(k, r). r < length (heap w) \<and> MeshNode.nodeId (heap w ! r) = k) (nodes w)
     \<and> list_all (\<lambda>n. count_list (eventEmitter n) (OnBroadcast Route) = 1) (heap w)"

text \<open>Every generator in the state has a non-zero interval.\<close>

definition intervals_ok :: "state \<Rightarrow> bool" where
  "intervals_ok w \<longleftrightarrow> list_all (\<lambda>n. phaseResetInterval (pattern n) \<noteq> 0) (heap w)"

text \<open>The calls a program can make on the network and on its nodes, and their effect.\<close>

datatype api_call =
    CreateNode NodeConfig
  | RemoveNode string
  | NodeBroadcast nat string
  | NodeReceive nat Message
  | NodeSync nat int
  | NodeOnBroadcast nat nat
  | NodeOnMessage nat nat
  | NodeOnError nat nat
  | NodeOnSync nat nat

fun api_step :: "api_call \<Rightarrow> state \<Rightarrow> state option" where
  "api_step (CreateNode config) w = Some (snd (createNode config w))"
| "api_step (RemoveNode nodeId') w = Some (removeNode nodeId' w)"
| "api_step (NodeBroadcast node d) w = broadcast node d w"
| "api_step (NodeReceive node message) w = receive node message w"
| "api_step (NodeSync node targetStep) w = sync node targetStep w"
| "api_step (NodeOnBroadcast node k) w = onBroadcast node k w"
| "api_step (NodeOnMessage node k) w = onMessage node k w"
| "api_step (NodeOnError node k) w = onError node k w"
| "api_step (NodeOnSync node k) w = onSync node k w"

fun run :: "api_call list \<Rightarrow> state \<Rightarrow> state option" where
  "run [] w = Some w"
| "run (c # calls) w = Option.bind (api_step c w) (run calls)"

text \<open>
  The configuration of the repository's tests and demonstrations (seed 7, interval 100),
  and a network of three nodes \<open>A\<close>, \<open>B\<close>, \<open>C\<close> built with it, at references 0, 1, 2.
\<close>

definition demo_config :: "string \<Rightarrow> NodeConfig" where
  "demo_config i = \<lparr>seed = 7, phaseResetInterval = 100, NodeConfig.nodeId = i\<rparr>"

definition three_nodes :: state where
  "three_nodes =
     snd (createNode (demo_config ''C'')
       (snd (createNode (demo_config ''B'')
         (snd (createNode (demo_config ''A'') MeshNetwork_new)))))"

definition node_step :: "nat \<Rightarrow> state \<Rightarrow> int" where
  "node_step node w = MeshNode.globalStep (heap w ! node)"

section \<open>Notions used in the proofs\<close>

text \<open>
  The calls that one \<open>emit\<close> adds to the trace; the node that \<open>sync\<close> and \<open>receive\<close>
  leave, and the calls they add; the messages a routed message delivers to one node.
\<close>

definition emit_calls :: "nat \<Rightarrow> event \<Rightarrow> payload \<Rightarrow> MeshNode \<Rightarrow> call list" where
  "emit_calls r ev p n =
     Emit r ev p # map (\<lambda>k. Invoke r k p) (List.map_filter (user_listener ev) (eventEmitter n))"

definition synced :: "int \<Rightarrow> MeshNode \<Rightarrow> MeshNode" where
  "synced targetStep n =
     (if targetStep > MeshNode.globalStep n then n\<lparr>MeshNode.globalStep := targetStep\<rparr> else n)"

definition sync_calls :: "nat \<Rightarrow> int \<Rightarrow> MeshNode \<Rightarrow> call list" where
  "sync_calls r targetStep n =
     (if targetStep > MeshNode.globalStep n
      then emit_calls r SyncEv (StepPayload targetStep) n else [])"

definition received :: "Message \<Rightarrow> jsnum \<Rightarrow> PatternGenerator \<Rightarrow> MeshNode \<Rightarrow> MeshNode" where
  "received m e g' n =
     (if js_strict_neq e (patternValue m) then n\<lparr>pattern := g'\<rparr>
      else synced (Message.globalStep m) (n\<lparr>pattern := g'\<rparr>))"

definition receive_calls_of :: "nat \<Rightarrow> Message \<Rightarrow> jsnum \<Rightarrow> MeshNode \<Rightarrow> call list" where
  "receive_calls_of r m e n =
     Receive r m #
       (if js_strict_neq e (patternValue m)
        then emit_calls r ErrorEv (ErrorPayload ''pattern-mismatch'' m e) n
        else sync_calls r (Message.globalStep m) n
               @ emit_calls r MessageEv (MessagePayload m) n)"

definition deliveries :: "nat \<Rightarrow> Message \<Rightarrow> (string \<times> nat) list \<Rightarrow> Message list" where
  "deliveries r m es = map (\<lambda>_. m) (filter (\<lambda>(k, r'). r' = r \<and> k \<noteq> senderId m) es)"

text \<open>
  What a call on a node keeps of every node (\<open>advances\<close>, \<open>extends\<close>): its id, its
  listeners, the seed and interval of its generator, and a step that has not gone down.
  \<open>grows\<close> is the part that also survives \<open>createNode\<close> and the registration of
  listeners. \<open>refs_ok\<close>: every entry of the map refers to an existing node.
\<close>

definition advances :: "MeshNode \<Rightarrow> MeshNode \<Rightarrow> bool" where
  "advances n n' \<longleftrightarrow>
     MeshNode.nodeId n' = MeshNode.nodeId n
     \<and> eventEmitter n' = eventEmitter n
     \<and> MeshNode.globalStep n \<le> MeshNode.globalStep n'
     \<and> seed (pattern n') = seed (pattern n)
     \<and> phaseResetInterval (pattern n') = phaseResetInterval (pattern n)"

definition extends :: "state \<Rightarrow> state \<Rightarrow> bool" where
  "extends w w' \<longleftrightarrow>
     nodes w' = nodes w \<and> length (heap w') = length (heap w)
     \<and> (\<forall>r < length (heap w). advances (heap w ! r) (heap w' ! r))"

definition grows :: "state \<Rightarrow> state \<Rightarrow> bool" where
  "grows w w' \<longleftrightarrow>
     length (heap w) \<le> length (heap w')
     \<and> (\<forall>r < length (heap w). node_step r w \<le> node_step r w')"

definition refs_ok :: "state \<Rightarrow> bool" where
  "refs_ok w \<longleftrightarrow> (\<forall>(k, r) \<in> set (nodes w). r < length (heap w))"

section \<open>Properties of the number operations\<close>


lemma collapseDigits_unfold:
  "0 \<le> n \<Longrightarrow> collapseDigits (Num n) =
     (if 9 < digits_total (nat n) then collapseDigits (Num (int (digits_total (nat n))))
      else Num (int (digits_total (nat n))))"
  by (subst collapseDigits.simps) (simp add: digit_sum_nonneg Let_def)


lemma collapseDigits_zero: "collapseDigits (Num 0) = Num 0"
  by (simp add: collapseDigits_unfold digits_total_small)

lemma collapseDigits_neg: "n < 0 \<Longrightarrow> collapseDigits (Num n) = NaN"
  by (subst collapseDigits.simps) (simp add: digit_sum_neg)

lemma collapseDigits_NaN: "collapseDigits NaN = NaN"
  by (subst collapseDigits.simps) (simp add: digit_sum_NaN)

section \<open>Properties of the sequence generator\<close>

lemma js_rem_zero_iff:
  "js_strict_eq (js_rem a b) (Num 0) \<longleftrightarrow> b \<noteq> 0 \<and> a mod \<bar>b\<bar> = 0"
proof (cases "b = 0")
  case True
  then show ?thesis by (simp add: js_rem_def js_strict_eq_def)
next
  case False
  have "\<bar>a\<bar> mod \<bar>b\<bar> = 0 \<longleftrightarrow> a mod \<bar>b\<bar> = 0"
    by (simp add: mod_eq_0_iff_dvd)
  moreover have "a = 0 \<Longrightarrow> a mod \<bar>b\<bar> = 0" by simp
  ultimately show ?thesis using False
    by (auto simp add: js_rem_def js_strict_eq_def sgn_if)
qed

lemma mod_pred:
  fixes step m :: int
  assumes "0 < m" "step mod m \<noteq> 0"
  shows "(step - 1) mod m = step mod m - 1"
proof -
  have "0 \<le> step mod m" "step mod m < m" using assms by simp_all
  with assms have "0 \<le> step mod m - 1" "step mod m - 1 < m" by simp_all
  then have "(step mod m - 1) mod m = step mod m - 1" by simp
  moreover have "(step - 1) mod m = (step mod m - 1) mod m"
    by (simp add: mod_diff_left_eq)
  ultimately show ?thesis by simp
qed

lemma computeValue_hit:
  "cache g step = Some v \<Longrightarrow> computeValue g step = Some (v, g)"
  by (subst computeValue.simps) simp

lemma computeValue_reset:
  "cache g step = None \<Longrightarrow> phaseResetInterval g \<noteq> 0 \<Longrightarrow>
   step mod \<bar>phaseResetInterval g\<bar> = 0 \<Longrightarrow>
   computeValue g step = Some (Num (seed g), g\<lparr>cache := (cache g)(step \<mapsto> Num (seed g))\<rparr>)"
  by (subst computeValue.simps) (simp add: js_rem_zero_iff Let_def)

lemma computeValue_rec:
  "cache g step = None \<Longrightarrow>
   \<not> (phaseResetInterval g \<noteq> 0 \<and> step mod \<bar>phaseResetInterval g\<bar> = 0) \<Longrightarrow>
   computeValue g (step - 1) = Some (previousValue, g') \<Longrightarrow>
   computeValue g step =
     Some (next_value (seed g') previousValue,
           g'\<lparr>cache := (cache g')(step \<mapsto> next_value (seed g') previousValue)\<rparr>)"
  by (subst computeValue.simps) (auto simp add: js_rem_zero_iff Let_def next_value_def)




lemma computeValue_total:
  assumes "phaseResetInterval g \<noteq> 0"
  shows "\<exists>v g'. computeValue g step = Some (v, g') \<and> seed g' = seed g
          \<and> phaseResetInterval g' = phaseResetInterval g"
  using assms
proof (induction "nat (step mod \<bar>phaseResetInterval g\<bar>)" arbitrary: step rule: less_induct)
  case less
  let ?r = "phaseResetInterval g"
  show ?case
  proof (cases "cache g step")
    case (Some v)
    then show ?thesis by (auto simp: computeValue_hit)
  next
    case None
    show ?thesis
    proof (cases "step mod \<bar>?r\<bar> = 0")
      case True
      with None less.prems show ?thesis by (simp add: computeValue_reset)
    next
      case False
      with less.prems have m: "(step - 1) mod \<bar>?r\<bar> = step mod \<bar>?r\<bar> - 1"
        by (intro mod_pred) simp_all
      have "0 \<le> step mod \<bar>?r\<bar>" using less.prems by simp
      with False have "nat ((step - 1) mod \<bar>?r\<bar>) < nat (step mod \<bar>?r\<bar>)"
        by (simp add: m)
      from less.hyps [OF this less.prems]
      obtain v1 g1 where g1: "computeValue g (step - 1) = Some (v1, g1)"
        "seed g1 = seed g" "phaseResetInterval g1 = ?r" by blast
      from None False g1 show ?thesis by (simp add: computeValue_rec)
    qed
  qed
qed






lemma computeValue_miss:
  "cache g step = None \<Longrightarrow>
   \<not> (phaseResetInterval g \<noteq> 0 \<and> step mod \<bar>phaseResetInterval g\<bar> = 0) \<Longrightarrow>
   computeValue g step =
     Option.bind (computeValue g (step - 1)) (\<lambda>(previousValue, g').
       Some (next_value (seed g') previousValue,
             g'\<lparr>cache := (cache g')(step \<mapsto> next_value (seed g') previousValue)\<rparr>))"
  by (subst computeValue.simps) (auto simp add: js_rem_zero_iff Let_def next_value_def)

lemmas computeValue_eval = computeValue_hit computeValue_reset computeValue_miss




section \<open>Properties of nodes and the network\<close>

subsection \<open>State access\<close>

lemma heap_put_node [simp]: "heap (put_node r n w) = (heap w)[r := n]"
  and nodes_put_node [simp]: "nodes (put_node r n w) = nodes w"
  and trace_put_node [simp]: "trace (put_node r n w) = trace w"
  by (simp_all add: put_node_def)

lemma heap_record_call [simp]: "heap (record_call c w) = heap w"
  and nodes_record_call [simp]: "nodes (record_call c w) = nodes w"
  and trace_record_call [simp]: "trace (record_call c w) = trace w @ [c]"
  by (simp_all add: record_call_def)

lemma node_at_Some: "node_at w r = Some n \<longleftrightarrow> r < length (heap w) \<and> n = heap w ! r"
  by (auto simp add: node_at_def)

lemma node_at_None: "node_at w r = None \<longleftrightarrow> \<not> r < length (heap w)"
  by (simp add: node_at_def)

lemma node_at_valid: "r < length (heap w) \<Longrightarrow> node_at w r = Some (heap w ! r)"
  by (simp add: node_at_def)

subsection \<open>What \<open>emit\<close>, \<open>sync\<close> and \<open>receive\<close> do to the state\<close>

lemma foldl_record_call:
  "foldl (\<lambda>w k. record_call (Invoke r k p) w) w ks
     = w\<lparr>trace := trace w @ map (\<lambda>k. Invoke r k p) ks\<rparr>"
  by (induction ks arbitrary: w) (simp_all add: record_call_def)

lemma emit_eq:
  "r < length (heap w) \<Longrightarrow>
   emit r ev p w = Some (w\<lparr>trace := trace w @ emit_calls r ev p (heap w ! r)\<rparr>)"
  by (simp add: emit_def node_at_valid foldl_record_call emit_calls_def)

lemma emit_None: "\<not> r < length (heap w) \<Longrightarrow> emit r ev p w = None"
  by (simp add: emit_def node_at_def)

lemma emit_calls_cong:
  "eventEmitter n' = eventEmitter n \<Longrightarrow> emit_calls r ev p n' = emit_calls r ev p n"
  by (simp add: emit_calls_def)

lemma sync_eq:
  "r < length (heap w) \<Longrightarrow>
   sync r targetStep w =
     Some (w\<lparr>heap := (heap w)[r := synced targetStep (heap w ! r)],
             trace := trace w @ sync_calls r targetStep (heap w ! r)\<rparr>)"
  by (simp add: sync_def node_at_valid emit_eq synced_def sync_calls_def put_node_def
      emit_calls_def)

lemma receive_eq:
  assumes "r < length (heap w)"
    and "computeValue (pattern (heap w ! r)) (Message.globalStep m) = Some (e, g')"
  shows "receive r m w =
     Some (w\<lparr>heap := (heap w)[r := received m e g' (heap w ! r)],
             trace := trace w @ receive_calls_of r m e (heap w ! r)\<rparr>)"
  using assms
  by (simp add: receive_def node_at_valid emit_eq sync_eq received_def receive_calls_of_def
      synced_def sync_calls_def emit_calls_def Let_def)

lemma receive_None:
  "\<not> r < length (heap w) \<or> computeValue (pattern (heap w ! r)) (Message.globalStep m) = None
   \<Longrightarrow> receive r m w = None"
  by (auto simp add: receive_def node_at_def)

lemma receive_SomeE:
  assumes "receive r m w = Some w'"
  obtains e g' where "r < length (heap w)"
    and "computeValue (pattern (heap w ! r)) (Message.globalStep m) = Some (e, g')"
    and "w' = w\<lparr>heap := (heap w)[r := received m e g' (heap w ! r)],
               trace := trace w @ receive_calls_of r m e (heap w ! r)\<rparr>"
proof (cases "r < length (heap w)")
  case False
  with assms show ?thesis by (simp add: receive_None)
next
  case True
  show ?thesis
  proof (cases "computeValue (pattern (heap w ! r)) (Message.globalStep m)")
    case None
    with assms show ?thesis by (simp add: receive_None)
  next
    case (Some a)
    obtain e g' where "a = (e, g')" by (cases a)
    with Some True assms that show ?thesis by (simp add: receive_eq)
  qed
qed
subsection \<open>The trace of one call\<close>

lemma map_filter_append:
  "List.map_filter f (xs @ ys) = List.map_filter f xs @ List.map_filter f ys"
  by (simp add: List.map_filter_def)

lemma receive_calls_append [simp]:
  "receive_calls r (t @ u) = receive_calls r t @ receive_calls r u"
  by (simp add: receive_calls_def map_filter_append)

lemma emits_append [simp]: "emits r (t @ u) = emits r t @ emits r u"
  by (simp add: emits_def map_filter_append)

lemma invocations_append [simp]:
  "invocations r k (t @ u) = invocations r k t @ invocations r k u"
  by (simp add: invocations_def map_filter_append)

lemma receive_calls_Nil [simp]: "receive_calls r [] = []"
  and emits_Nil [simp]: "emits r [] = []"
  and invocations_Nil [simp]: "invocations r k [] = []"
  by (simp_all add: receive_calls_def emits_def invocations_def List.map_filter_simps)

lemma receive_calls_Cons [simp]:
  "receive_calls r (c # t)
     = (case received_by r c of None \<Rightarrow> [] | Some m \<Rightarrow> [m]) @ receive_calls r t"
  by (simp add: receive_calls_def List.map_filter_simps split: option.split)

lemma emits_Cons [simp]:
  "emits r (c # t) = (case emitted_by r c of None \<Rightarrow> [] | Some x \<Rightarrow> [x]) @ emits r t"
  by (simp add: emits_def List.map_filter_simps split: option.split)

lemma invocations_Cons [simp]:
  "invocations r k (c # t)
     = (case invoked_on r k c of None \<Rightarrow> [] | Some p \<Rightarrow> [p]) @ invocations r k t"
  by (simp add: invocations_def List.map_filter_simps split: option.split)

lemma receive_calls_invokes [simp]: "receive_calls r (map (\<lambda>k. Invoke r' k p) ks) = []"
  by (induction ks) simp_all

lemma emits_invokes [simp]: "emits r (map (\<lambda>k. Invoke r' k p) ks) = []"
  by (induction ks) simp_all

lemma invocations_invokes:
  "invocations r k (map (\<lambda>k'. Invoke r' k' p) ks)
     = (if r' = r then map (\<lambda>_. p) (filter (\<lambda>k'. k' = k) ks) else [])"
  by (induction ks) simp_all

lemma receive_calls_emit_calls [simp]: "receive_calls r (emit_calls r' ev p n) = []"
  by (simp add: emit_calls_def)

lemma emits_emit_calls:
  "emits r (emit_calls r' ev p n) = (if r' = r then [(ev, p)] else [])"
  by (simp add: emit_calls_def)

lemma invocations_emit_calls:
  "invocations r k (emit_calls r' ev p n)
     = (if r' = r
        then map (\<lambda>_. p) (filter (\<lambda>k'. k' = k) (List.map_filter (user_listener ev) (eventEmitter n)))
        else [])"
  by (simp add: emit_calls_def invocations_invokes)

lemma receive_calls_sync_calls [simp]: "receive_calls r (sync_calls r' t n) = []"
  by (simp add: sync_calls_def)

lemma receive_calls_receive_calls_of:
  "receive_calls r (receive_calls_of r' m e n) = (if r' = r then [m] else [])"
  by (simp add: receive_calls_of_def)

subsection \<open>What every call preserves\<close>

lemma computeValue_config_aux:
  assumes "computeValue g0 step0 = Some y0"
  shows "seed (snd y0) = seed g0 \<and> phaseResetInterval (snd y0) = phaseResetInterval g0"
proof (rule computeValue.raw_induct
    [where P = "\<lambda>g step y. seed (snd y) = seed g
                   \<and> phaseResetInterval (snd y) = phaseResetInterval g", OF _ assms])
  fix f :: "PatternGenerator \<Rightarrow> int \<Rightarrow> (jsnum \<times> PatternGenerator) option"
    and g :: PatternGenerator and step :: int and y :: "jsnum \<times> PatternGenerator"
  assume IH: "\<And>g step y. f g step = Some y
      \<Longrightarrow> seed (snd y) = seed g \<and> phaseResetInterval (snd y) = phaseResetInterval g"
  assume body: "(case cache g step of
        None \<Rightarrow>
          if js_strict_eq (js_rem step (phaseResetInterval g)) (Num 0) then
            let value = Num (seed g)
            in Some (value, g\<lparr>cache := (cache g)(step \<mapsto> value)\<rparr>)
          else
            Option.bind (f g (step - 1)) (\<lambda>(previousValue, g').
              let value = collapseDigits (js_mul previousValue (Num (seed g')))
              in Some (value, g'\<lparr>cache := (cache g')(step \<mapsto> value)\<rparr>))
      | Some v \<Rightarrow> Some (v, g)) = Some y"
  show "seed (snd y) = seed g \<and> phaseResetInterval (snd y) = phaseResetInterval g"
  proof (cases "cache g step")
    case (Some v)
    with body show ?thesis by auto
  next
    case None
    show ?thesis
    proof (cases "js_strict_eq (js_rem step (phaseResetInterval g)) (Num 0)")
      case True
      with None body show ?thesis by (auto simp add: Let_def)
    next
      case False
      with None body obtain p g1 where f: "f g (step - 1) = Some (p, g1)"
        and y: "y = (collapseDigits (js_mul p (Num (seed g1))),
                     g1\<lparr>cache := (cache g1)(step \<mapsto>
                            collapseDigits (js_mul p (Num (seed g1))))\<rparr>)"
        by (auto simp add: Let_def split: Option.bind_splits)
      from IH [OF f] y show ?thesis by simp
    qed
  qed
qed

lemma computeValue_config:
  "computeValue g step = Some (v, g') \<Longrightarrow>
   seed g' = seed g \<and> phaseResetInterval g' = phaseResetInterval g"
  using computeValue_config_aux [of g step "(v, g')"] by simp

lemma advances_refl [simp]: "advances n n"
  by (simp add: advances_def)

lemma advances_trans: "advances n n' \<Longrightarrow> advances n' n'' \<Longrightarrow> advances n n''"
  by (auto simp add: advances_def)

lemma extends_refl [simp]: "extends w w"
  by (simp add: extends_def)

lemma extends_trans: "extends w w' \<Longrightarrow> extends w' w'' \<Longrightarrow> extends w w''"
  by (auto simp add: extends_def intro: advances_trans)

lemma extends_update:
  assumes "r < length (heap w)" "advances (heap w ! r) n'"
  shows "extends w (w\<lparr>heap := (heap w)[r := n'], trace := t\<rparr>)"
  using assms by (auto simp add: extends_def nth_list_update)

lemma extends_trace [simp]: "extends w (w\<lparr>trace := t\<rparr>)"
  by (simp add: extends_def)

lemma synced_advances: "advances n (synced t n)"
  by (simp add: advances_def synced_def)

lemma received_advances:
  assumes "computeValue (pattern n) step = Some (e, g')"
  shows "advances n (received m e g' n)"
  using computeValue_config [OF assms]
  by (simp add: advances_def received_def synced_def)

lemma receive_extends: "receive r m w = Some w' \<Longrightarrow> extends w w'"
  by (erule receive_SomeE) (simp add: extends_update received_advances)

lemma forEach_receive_extends:
  "forEach_receive m es w = Some w' \<Longrightarrow> extends w w'"
proof (induction es arbitrary: w)
  case Nil
  then show ?case by simp
next
  case (Cons a es)
  obtain k r where a: "a = (k, r)" by (cases a)
  show ?case
  proof (cases "k \<noteq> senderId m")
    case True
    with Cons.prems a obtain w1 where w1: "receive r m w = Some w1"
      "forEach_receive m es w1 = Some w'"
      by (auto split: Option.bind_splits)
    from receive_extends [OF w1(1)] Cons.IH [OF w1(2)] show ?thesis by (rule extends_trans)
  next
    case False
    with Cons.prems a Cons.IH [of w] show ?thesis by simp
  qed
qed

lemma forEach_receive_calls:
  "forEach_receive m es w = Some w' \<Longrightarrow>
   receive_calls r (trace w')
     = receive_calls r (trace w)
       @ map (\<lambda>_. m) (filter (\<lambda>(k, r'). r' = r \<and> k \<noteq> senderId m) es)"
proof (induction es arbitrary: w)
  case Nil
  then show ?case by simp
next
  case (Cons a es)
  obtain k r' where a: "a = (k, r')" by (cases a)
  show ?case
  proof (cases "k \<noteq> senderId m")
    case True
    with Cons.prems a obtain w1 where w1: "receive r' m w = Some w1"
      "forEach_receive m es w1 = Some w'"
      by (auto split: Option.bind_splits)
    from w1(1) obtain e g' where
      "w1 = w\<lparr>heap := (heap w)[r' := received m e g' (heap w ! r')],
                trace := trace w @ receive_calls_of r' m e (heap w ! r')\<rparr>"
      by (rule receive_SomeE)
    then have "receive_calls r (trace w1)
        = receive_calls r (trace w) @ (if r' = r then [m] else [])"
      by (simp add: receive_calls_receive_calls_of)
    with Cons.IH [OF w1(2)] a True show ?thesis by simp
  next
    case False
    with Cons.prems a Cons.IH [of w] show ?thesis by simp
  qed
qed
subsection \<open>Routing and \<open>broadcast\<close>\<close>

lemma network_broadcast_extends: "network_broadcast m w = Some w' \<Longrightarrow> extends w w'"
  unfolding network_broadcast_def by (rule forEach_receive_extends)

lemma extends_record_call [simp]: "extends w (record_call c w)"
  by (simp add: extends_def)

lemma run_broadcast_listeners_extends:
  "run_broadcast_listeners x m ls w = Some w' \<Longrightarrow> extends w w'"
proof (induction x m ls w rule: run_broadcast_listeners.induct)
  case (1 node message w)
  then show ?case by simp
next
  case (2 node message ls w)
  then obtain w1 where w1: "network_broadcast message w = Some w1"
    "run_broadcast_listeners node message ls w1 = Some w'"
    by (auto split: Option.bind_splits)
  from network_broadcast_extends [OF w1(1)] "2.IH" [OF w1(1) w1(2)]
  show ?case by (rule extends_trans)
next
  case (3 node message k ls w)
  then have "extends (record_call (Invoke node k (MessagePayload message)) w) w'" by simp
  with extends_record_call show ?case by (rule extends_trans)
qed simp_all

lemma network_broadcast_calls:
  "network_broadcast m w = Some w' \<Longrightarrow>
   receive_calls r (trace w') = receive_calls r (trace w) @ deliveries r m (nodes w)"
  unfolding network_broadcast_def deliveries_def by (rule forEach_receive_calls)

lemma run_broadcast_listeners_calls:
  "run_broadcast_listeners x m ls w = Some w' \<Longrightarrow>
   receive_calls r (trace w')
     = receive_calls r (trace w)
       @ concat (replicate (count_list ls (OnBroadcast Route)) (deliveries r m (nodes w)))"
proof (induction x m ls w rule: run_broadcast_listeners.induct)
  case (1 node message w)
  then show ?case by simp
next
  case (2 node message ls w)
  then obtain w1 where w1: "network_broadcast message w = Some w1"
    "run_broadcast_listeners node message ls w1 = Some w'"
    by (auto split: Option.bind_splits)
  from network_broadcast_extends [OF w1(1)] have "nodes w1 = nodes w"
    by (simp add: extends_def)
  with "2.IH" [OF w1(1) w1(2)] network_broadcast_calls [OF w1(1), of r]
  show ?case by simp
qed simp_all

lemma broadcast_SomeE:
  assumes "broadcast x d w = Some w'"
  obtains v g' w2 where "x < length (heap w)"
    and "computeValue (pattern (heap w ! x)) (MeshNode.globalStep (heap w ! x)) = Some (v, g')"
    and "run_broadcast_listeners x
           \<lparr>senderId = MeshNode.nodeId (heap w ! x),
            globalStep = MeshNode.globalStep (heap w ! x), patternValue = v, data = d\<rparr>
           (eventEmitter (heap w ! x))
           (record_call
              (Emit x BroadcastEv (MessagePayload
                 \<lparr>senderId = MeshNode.nodeId (heap w ! x),
                  globalStep = MeshNode.globalStep (heap w ! x), patternValue = v, data = d\<rparr>))
              (put_node x ((heap w ! x)\<lparr>pattern := g'\<rparr>) w))
         = Some w2"
    and "w' = put_node x ((heap w2 ! x)\<lparr>MeshNode.globalStep :=
                             MeshNode.globalStep (heap w2 ! x) + 1\<rparr>) w2"
    and "x < length (heap w2)"
proof (cases "x < length (heap w)")
  case False
  with assms show ?thesis by (simp add: broadcast_def node_at_def)
next
  case True
  show ?thesis
  proof (cases "computeValue (pattern (heap w ! x)) (MeshNode.globalStep (heap w ! x))")
    case None
    with assms True show ?thesis by (simp add: broadcast_def node_at_def)
  next
    case (Some a)
    obtain v g' where a: "a = (v, g')" by (cases a)
    let ?m = "\<lparr>senderId = MeshNode.nodeId (heap w ! x),
               globalStep = MeshNode.globalStep (heap w ! x), patternValue = v, data = d\<rparr>"
    let ?w1 = "put_node x ((heap w ! x)\<lparr>pattern := g'\<rparr>) w"
    from assms True Some a obtain w2 where
      w2: "emit_broadcast x ?m ?w1 = Some w2" and i: "incrementStep x w2 = Some w'"
      by (auto simp add: broadcast_def node_at_def Let_def split: Option.bind_splits)
    from True have x1: "x < length (heap ?w1)" by simp
    with w2 True have r: "run_broadcast_listeners x ?m (eventEmitter (heap w ! x))
        (record_call (Emit x BroadcastEv (MessagePayload ?m)) ?w1) = Some w2"
      by (simp add: emit_broadcast_def node_at_def)
    from i have "x < length (heap w2)"
      by (cases "x < length (heap w2)") (simp_all add: incrementStep_def node_at_def)
    with i True Some a r that show ?thesis
      by (simp add: incrementStep_def node_at_def)
  qed
qed

lemma extends_put_node:
  "x < length (heap w) \<Longrightarrow> advances (heap w ! x) n' \<Longrightarrow> extends w (put_node x n' w)"
  by (auto simp add: extends_def nth_list_update)

lemma broadcast_extends:
  assumes "broadcast x d w = Some w'"
  shows "extends w w'"
proof -
  from assms obtain v g' w2 m where x: "x < length (heap w)"
    and c: "computeValue (pattern (heap w ! x)) (MeshNode.globalStep (heap w ! x)) = Some (v, g')"
    and r: "run_broadcast_listeners x m (eventEmitter (heap w ! x))
              (record_call (Emit x BroadcastEv (MessagePayload m))
                 (put_node x ((heap w ! x)\<lparr>pattern := g'\<rparr>) w)) = Some w2"
    and w': "w' = put_node x ((heap w2 ! x)\<lparr>MeshNode.globalStep :=
                             MeshNode.globalStep (heap w2 ! x) + 1\<rparr>) w2"
    and x2: "x < length (heap w2)"
    by (rule broadcast_SomeE)
  let ?w1 = "put_node x ((heap w ! x)\<lparr>pattern := g'\<rparr>) w"
  from computeValue_config [OF c] have "advances (heap w ! x) ((heap w ! x)\<lparr>pattern := g'\<rparr>)"
    by (simp add: advances_def)
  with x have "extends w ?w1" by (rule extends_put_node)
  also have "extends ?w1 (record_call (Emit x BroadcastEv (MessagePayload m)) ?w1)" by simp
  also (extends_trans) note run_broadcast_listeners_extends [OF r]
  also (extends_trans) have "extends w2 w'"
    unfolding w' using x2 by (rule extends_put_node) (simp add: advances_def)
  finally (extends_trans) show ?thesis .
qed

lemma broadcast_calls:
  assumes "broadcast x d w = Some w'"
  shows "\<exists>v g'.
    computeValue (pattern (heap w ! x)) (MeshNode.globalStep (heap w ! x)) = Some (v, g')
    \<and> (\<forall>r. receive_calls r (trace w')
          = receive_calls r (trace w)
            @ concat (replicate (count_list (eventEmitter (heap w ! x)) (OnBroadcast Route))
                (deliveries r
                   \<lparr>senderId = MeshNode.nodeId (heap w ! x),
                    globalStep = MeshNode.globalStep (heap w ! x), patternValue = v, data = d\<rparr>
                   (nodes w))))"
proof -
  from assms obtain v g' w2 where x: "x < length (heap w)"
    and c: "computeValue (pattern (heap w ! x)) (MeshNode.globalStep (heap w ! x)) = Some (v, g')"
    and r: "run_broadcast_listeners x
           \<lparr>senderId = MeshNode.nodeId (heap w ! x),
            globalStep = MeshNode.globalStep (heap w ! x), patternValue = v, data = d\<rparr>
           (eventEmitter (heap w ! x))
           (record_call
              (Emit x BroadcastEv (MessagePayload
                 \<lparr>senderId = MeshNode.nodeId (heap w ! x),
                  globalStep = MeshNode.globalStep (heap w ! x), patternValue = v, data = d\<rparr>))
              (put_node x ((heap w ! x)\<lparr>pattern := g'\<rparr>) w))
         = Some w2"
    and w': "w' = put_node x ((heap w2 ! x)\<lparr>MeshNode.globalStep :=
                             MeshNode.globalStep (heap w2 ! x) + 1\<rparr>) w2"
    by (rule broadcast_SomeE)
  have "\<forall>r. receive_calls r (trace w')
          = receive_calls r (trace w)
            @ concat (replicate (count_list (eventEmitter (heap w ! x)) (OnBroadcast Route))
                (deliveries r
                   \<lparr>senderId = MeshNode.nodeId (heap w ! x),
                    globalStep = MeshNode.globalStep (heap w ! x), patternValue = v, data = d\<rparr>
                   (nodes w)))"
    using run_broadcast_listeners_calls [OF r] by (simp add: w')
  with c show ?thesis by blast
qed

subsection \<open>Calls return when every interval is non-zero\<close>

lemma intervals_ok_nth:
  "intervals_ok w \<longleftrightarrow> (\<forall>r < length (heap w). phaseResetInterval (pattern (heap w ! r)) \<noteq> 0)"
  by (simp add: intervals_ok_def list_all_length)

lemma intervals_ok_extends: "extends w w' \<Longrightarrow> intervals_ok w \<Longrightarrow> intervals_ok w'"
  by (simp add: intervals_ok_nth extends_def advances_def)

lemma receive_total:
  assumes "intervals_ok w" "r < length (heap w)"
  shows "\<exists>w'. receive r m w = Some w'"
proof -
  from assms have "phaseResetInterval (pattern (heap w ! r)) \<noteq> 0"
    by (simp add: intervals_ok_nth)
  from computeValue_total [OF this, of "Message.globalStep m"]
  obtain e g' where "computeValue (pattern (heap w ! r)) (Message.globalStep m) = Some (e, g')"
    by blast
  with assms(2) show ?thesis by (simp add: receive_eq)
qed

lemma sync_total: "r < length (heap w) \<Longrightarrow> \<exists>w'. sync r t w = Some w'"
  by (simp add: sync_eq)

lemma forEach_receive_total:
  assumes "intervals_ok w" "\<forall>(k, r) \<in> set es. r < length (heap w)"
  shows "\<exists>w'. forEach_receive m es w = Some w'"
  using assms
proof (induction es arbitrary: w)
  case Nil
  then show ?case by simp
next
  case (Cons a es)
  obtain k r where a: "a = (k, r)" by (cases a)
  show ?case
  proof (cases "k \<noteq> senderId m")
    case True
    from Cons.prems a have "r < length (heap w)" by simp
    from receive_total [OF Cons.prems(1) this]
    obtain w1 where w1: "receive r m w = Some w1" by blast
    from receive_extends [OF w1] have e: "extends w w1" .
    then have "intervals_ok w1" using Cons.prems(1) by (rule intervals_ok_extends)
    moreover from e Cons.prems(2) have "\<forall>(k, r) \<in> set es. r < length (heap w1)"
      by (auto simp add: extends_def)
    ultimately obtain w' where "forEach_receive m es w1 = Some w'"
      using Cons.IH by blast
    with w1 a True show ?thesis by simp
  next
    case False
    from Cons.prems have "\<forall>(k, r) \<in> set es. r < length (heap w)" by simp
    from Cons.IH [OF Cons.prems(1) this] a False show ?thesis by simp
  qed
qed

lemma refs_ok_extends: "extends w w' \<Longrightarrow> refs_ok w \<Longrightarrow> refs_ok w'"
  by (simp add: refs_ok_def extends_def)

lemma network_ok_refs_ok: "network_ok w \<Longrightarrow> refs_ok w"
  by (auto simp add: network_ok_def refs_ok_def list_all_iff)

lemma network_broadcast_total:
  "intervals_ok w \<Longrightarrow> refs_ok w \<Longrightarrow> \<exists>w'. network_broadcast m w = Some w'"
  unfolding network_broadcast_def refs_ok_def by (rule forEach_receive_total)

lemma run_broadcast_listeners_total:
  "intervals_ok w \<Longrightarrow> refs_ok w \<Longrightarrow> \<exists>w'. run_broadcast_listeners x m ls w = Some w'"
proof (induction x m ls w rule: run_broadcast_listeners.induct)
  case (1 node message w)
  then show ?case by simp
next
  case (2 node message ls w)
  from network_broadcast_total [OF "2.prems"]
  obtain w1 where w1: "network_broadcast message w = Some w1" by blast
  from network_broadcast_extends [OF w1] "2.prems"
  have "intervals_ok w1" "refs_ok w1"
    by (auto intro: intervals_ok_extends refs_ok_extends)
  from "2.IH" [OF w1 this] w1 show ?case by simp
next
  case (3 node message k ls w)
  let ?w1 = "record_call (Invoke node k (MessagePayload message)) w"
  from "3.prems" have "intervals_ok ?w1" "refs_ok ?w1"
    by (simp_all add: intervals_ok_def refs_ok_def)
  from "3.IH" [OF this] show ?case by simp
qed simp_all

lemma broadcast_total:
  assumes "intervals_ok w" "refs_ok w" "x < length (heap w)"
  shows "\<exists>w'. broadcast x d w = Some w'"
proof -
  from assms have "phaseResetInterval (pattern (heap w ! x)) \<noteq> 0"
    by (simp add: intervals_ok_nth)
  from computeValue_total [OF this, of "MeshNode.globalStep (heap w ! x)"]
  obtain v g' where c: "computeValue (pattern (heap w ! x)) (MeshNode.globalStep (heap w ! x))
      = Some (v, g')"
    and g': "phaseResetInterval g' = phaseResetInterval (pattern (heap w ! x))"
    by blast
  let ?m = "\<lparr>senderId = MeshNode.nodeId (heap w ! x),
             globalStep = MeshNode.globalStep (heap w ! x), patternValue = v, data = d\<rparr>"
  let ?w1 = "record_call (Emit x BroadcastEv (MessagePayload ?m))
               (put_node x ((heap w ! x)\<lparr>pattern := g'\<rparr>) w)"
  from computeValue_config [OF c]
  have "advances (heap w ! x) ((heap w ! x)\<lparr>pattern := g'\<rparr>)" by (simp add: advances_def)
  with assms(3) have "extends w (put_node x ((heap w ! x)\<lparr>pattern := g'\<rparr>) w)"
    by (rule extends_put_node)
  then have e: "extends w ?w1" by (simp add: extends_def)
  with assms have "intervals_ok ?w1" "refs_ok ?w1"
    by (auto intro: intervals_ok_extends refs_ok_extends)
  from run_broadcast_listeners_total [OF this]
  obtain w2 where w2: "run_broadcast_listeners x ?m (eventEmitter (heap w ! x)) ?w1 = Some w2"
    by blast
  from run_broadcast_listeners_extends [OF w2] assms(3) have "x < length (heap w2)"
    by (simp add: extends_def)
  with c w2 assms(3) show ?thesis
    by (simp add: broadcast_def node_at_def emit_broadcast_def incrementStep_def Let_def)
qed

subsection \<open>Who a routed message reaches\<close>

lemma deliveries_absent: "r \<notin> snd ` set es \<Longrightarrow> deliveries r m es = []"
  by (induction es) (auto simp add: deliveries_def)

lemma deliveries_registered:
  assumes "distinct (map snd es)" "(k, r) \<in> set es"
  shows "deliveries r m es = (if k \<noteq> senderId m then [m] else [])"
  using assms
proof (induction es)
  case Nil
  then show ?case by simp
next
  case (Cons a es)
  obtain k' r' where a: "a = (k', r')" by (cases a)
  show ?case
  proof (cases "a = (k, r)")
    case True
    with Cons.prems a have "r \<notin> snd ` set es" by auto
    then have "deliveries r m es = []" by (rule deliveries_absent)
    with True show ?thesis by (simp add: deliveries_def)
  next
    case False
    with Cons.prems have in_es: "(k, r) \<in> set es" by simp
    with Cons.prems a have "r' \<noteq> r" by force
    moreover from Cons.prems in_es have "deliveries r m es = (if k \<noteq> senderId m then [m] else [])"
      by (intro Cons.IH) simp_all
    ultimately show ?thesis using a by (simp add: deliveries_def)
  qed
qed

subsection \<open>The invariant of a network\<close>

lemma network_ok_new: "network_ok MeshNetwork_new"
  by (simp add: network_ok_def MeshNetwork_new_def)

lemma network_ok_extends:
  assumes "extends w w'" "network_ok w"
  shows "network_ok w'"
proof -
  from assms have n: "nodes w' = nodes w" and l: "length (heap w') = length (heap w)"
    and a: "\<forall>r < length (heap w). advances (heap w ! r) (heap w' ! r)"
    by (simp_all add: extends_def)
  from assms(2) have "list_all (\<lambda>(k, r). r < length (heap w) \<and> MeshNode.nodeId (heap w ! r) = k)
      (nodes w)" by (simp add: network_ok_def)
  with a have "list_all (\<lambda>(k, r). r < length (heap w') \<and> MeshNode.nodeId (heap w' ! r) = k)
      (nodes w')"
    by (auto simp add: n l list_all_iff advances_def)
  moreover from assms(2) a
  have "list_all (\<lambda>n. count_list (eventEmitter n) (OnBroadcast Route) = 1) (heap w')"
    by (simp add: network_ok_def list_all_length l advances_def)
  ultimately show ?thesis using assms(2) by (simp add: network_ok_def n)
qed

lemma network_ok_removeNode:
  assumes "network_ok w"
  shows "network_ok (removeNode k w)"
proof -
  have d: "AList.delete k (nodes w) = filter (\<lambda>p. k \<noteq> fst p) (nodes w)"
    by (simp add: AList.delete_eq case_prod_beta')
  from assms show ?thesis
    by (auto simp add: network_ok_def removeNode_def d distinct_map_filter list_all_iff)
qed

lemma removeNode_entries:
  "(k', r) \<in> set (nodes (removeNode k w)) \<longleftrightarrow> (k', r) \<in> set (nodes w) \<and> k' \<noteq> k"
  by (auto simp add: removeNode_def AList.delete_eq)

lemma network_ok_route_once:
  "network_ok w \<Longrightarrow> x < length (heap w) \<Longrightarrow>
   count_list (eventEmitter (heap w ! x)) (OnBroadcast Route) = 1"
  by (simp add: network_ok_def list_all_length)

lemma network_ok_entry:
  "network_ok w \<Longrightarrow> (k, r) \<in> set (nodes w) \<Longrightarrow>
   r < length (heap w) \<and> MeshNode.nodeId (heap w ! r) = k"
  by (auto simp add: network_ok_def list_all_iff)

subsection \<open>The three-node network\<close>

lemma three_nodes_eq:
  "three_nodes =
     \<lparr>heap = [\<lparr>nodeId = ''A'', pattern = PatternGenerator_new 7 100,
                eventEmitter = [OnBroadcast Route], globalStep = 0\<rparr>,
              \<lparr>nodeId = ''B'', pattern = PatternGenerator_new 7 100,
                eventEmitter = [OnBroadcast Route], globalStep = 0\<rparr>,
              \<lparr>nodeId = ''C'', pattern = PatternGenerator_new 7 100,
                eventEmitter = [OnBroadcast Route], globalStep = 0\<rparr>],
      nodes = [(''A'', 0), (''B'', 1), (''C'', 2)], trace = []\<rparr>"
  by (simp add: three_nodes_def demo_config_def createNode_def MeshNetwork_new_def
      MeshNode_new_def Let_def)

lemma three_nodes_ok: "network_ok three_nodes" "intervals_ok three_nodes"
  by (simp_all add: three_nodes_eq network_ok_def intervals_ok_def PatternGenerator_new_def)

lemma three_nodes_value:
  "computeValue (pattern (heap three_nodes ! 0)) (MeshNode.globalStep (heap three_nodes ! 0))
     = Some (Num 7, (PatternGenerator_new 7 100)\<lparr>cache := [0 \<mapsto> Num 7]\<rparr>)"
  by (simp add: three_nodes_eq computeValue_reset PatternGenerator_new_def)

subsection \<open>Sequences of calls\<close>

lemma add_listener_eq:
  "r < length (heap w) \<Longrightarrow>
   add_listener l r w
     = Some (w\<lparr>heap := (heap w)[r := (heap w ! r)\<lparr>eventEmitter := eventEmitter (heap w ! r) @ [l]\<rparr>]\<rparr>)"
  by (simp add: add_listener_def node_at_def put_node_def)

lemma add_listener_SomeE:
  assumes "add_listener l r w = Some w'"
  obtains "r < length (heap w)"
    and "w' = w\<lparr>heap := (heap w)[r := (heap w ! r)\<lparr>eventEmitter := eventEmitter (heap w ! r) @ [l]\<rparr>]\<rparr>"
  using assms by (cases "r < length (heap w)") (simp_all add: add_listener_def node_at_def put_node_def)

lemma grows_refl [simp]: "grows w w"
  by (simp add: grows_def)

lemma grows_trans:
  assumes "grows w w'" "grows w' w''"
  shows "grows w w''"
  unfolding grows_def
proof (intro conjI allI impI)
  from assms show "length (heap w) \<le> length (heap w'')" by (simp add: grows_def)
next
  fix r
  assume r: "r < length (heap w)"
  with assms(1) have "node_step r w \<le> node_step r w'" "r < length (heap w')"
    by (simp_all add: grows_def)
  moreover with assms(2) have "node_step r w' \<le> node_step r w''" by (simp add: grows_def)
  ultimately show "node_step r w \<le> node_step r w''" by simp
qed

lemma extends_grows: "extends w w' \<Longrightarrow> grows w w'"
  by (simp add: extends_def grows_def advances_def node_step_def)

lemma sync_SomeE:
  assumes "sync r t w = Some w'"
  obtains "r < length (heap w)"
    and "w' = w\<lparr>heap := (heap w)[r := synced t (heap w ! r)],
               trace := trace w @ sync_calls r t (heap w ! r)\<rparr>"
proof (cases "r < length (heap w)")
  case True
  with assms that show ?thesis by (simp add: sync_eq)
next
  case False
  with assms show ?thesis by (simp add: sync_def node_at_def)
qed

lemma sync_extends: "sync r t w = Some w' \<Longrightarrow> extends w w'"
  by (erule sync_SomeE) (simp add: extends_update synced_advances)

lemma add_listener_grows: "add_listener l r w = Some w' \<Longrightarrow> grows w w'"
  by (erule add_listener_SomeE) (simp add: grows_def node_step_def nth_list_update)

lemma createNode_grows: "grows w (snd (createNode config w))"
  by (simp add: createNode_def grows_def node_step_def nth_append Let_def)

lemma removeNode_grows: "grows w (removeNode k w)"
  by (simp add: removeNode_def grows_def node_step_def)

lemma api_step_grows: "api_step c w = Some w' \<Longrightarrow> grows w w'"
proof (cases c)
  case (CreateNode config)
  assume "api_step c w = Some w'"
  with CreateNode show ?thesis using createNode_grows [of w config] by auto
next
  case (RemoveNode k)
  assume "api_step c w = Some w'"
  with RemoveNode show ?thesis using removeNode_grows [of w k] by auto
next
  case (NodeBroadcast r d)
  assume "api_step c w = Some w'"
  with NodeBroadcast show ?thesis by (auto intro: extends_grows broadcast_extends)
next
  case (NodeReceive r m)
  assume "api_step c w = Some w'"
  with NodeReceive show ?thesis by (auto intro: extends_grows receive_extends)
next
  case (NodeSync r t)
  assume "api_step c w = Some w'"
  with NodeSync show ?thesis by (auto intro: extends_grows sync_extends)
next
  case (NodeOnBroadcast r k)
  assume "api_step c w = Some w'"
  with NodeOnBroadcast show ?thesis by (auto simp add: onBroadcast_def intro: add_listener_grows)
next
  case (NodeOnMessage r k)
  assume "api_step c w = Some w'"
  with NodeOnMessage show ?thesis by (auto simp add: onMessage_def intro: add_listener_grows)
next
  case (NodeOnError r k)
  assume "api_step c w = Some w'"
  with NodeOnError show ?thesis by (auto simp add: onError_def intro: add_listener_grows)
next
  case (NodeOnSync r k)
  assume "api_step c w = Some w'"
  with NodeOnSync show ?thesis by (auto simp add: onSync_def intro: add_listener_grows)
qed

lemma run_grows: "run calls w = Some w' \<Longrightarrow> grows w w'"
proof (induction calls arbitrary: w)
  case Nil
  then show ?case by simp
next
  case (Cons c calls)
  then obtain w1 where w1: "api_step c w = Some w1" "run calls w1 = Some w'"
    by (auto split: Option.bind_splits)
  from api_step_grows [OF w1(1)] Cons.IH [OF w1(2)] show ?case by (rule grows_trans)
qed

lemma update_entries: "set (AList.update k v al) \<subseteq> insert (k, v) (set al)"
  by (induction al) auto

lemma distinct_snd_update:
  "distinct (map snd al) \<Longrightarrow> v \<notin> snd ` set al \<Longrightarrow> distinct (map snd (AList.update k v al))"
proof (induction al)
  case Nil
  then show ?case by simp
next
  case (Cons a al)
  obtain k' v' where a: "a = (k', v')" by (cases a)
  show ?case
  proof (cases "k' = k")
    case True
    with Cons.prems a show ?thesis by (auto simp add: image_iff)
  next
    case False
    from Cons.prems have ih: "distinct (map snd (AList.update k v al))"
      by (intro Cons.IH) auto
    have "snd ` set (AList.update k v al) \<subseteq> insert v (snd ` set al)"
      using update_entries [of k v al] by force
    with Cons.prems a have "v' \<notin> snd ` set (AList.update k v al)" by auto
    with ih a False show ?thesis by simp
  qed
qed

lemma network_ok_createNode:
  assumes "network_ok w"
  shows "network_ok (snd (createNode config w))"
proof -
  let ?k = "NodeConfig.nodeId config"
  let ?v = "length (heap w)"
  let ?n = "(MeshNode_new config)\<lparr>eventEmitter := [OnBroadcast Route]\<rparr>"
  let ?w' = "snd (createNode config w)"
  have h: "heap ?w' = heap w @ [?n]" and n: "nodes ?w' = AList.update ?k ?v (nodes w)"
    by (simp_all add: createNode_def Let_def)
  from assms have valid: "\<forall>(k, r) \<in> set (nodes w). r < ?v \<and> MeshNode.nodeId (heap w ! r) = k"
    by (simp add: network_ok_def list_all_iff)
  then have fresh: "?v \<notin> snd ` set (nodes w)" by force
  from assms have "distinct (map fst (nodes ?w'))"
    by (simp add: n network_ok_def distinct_update)
  moreover from assms fresh have "distinct (map snd (nodes ?w'))"
    by (simp add: n network_ok_def distinct_snd_update)
  moreover have "list_all (\<lambda>(k, r). r < length (heap ?w') \<and> MeshNode.nodeId (heap ?w' ! r) = k)
      (nodes ?w')"
    unfolding list_all_iff
  proof (clarify)
    fix k r
    assume "(k, r) \<in> set (nodes ?w')"
    with update_entries [of ?k ?v "nodes w"] have "(k, r) = (?k, ?v) \<or> (k, r) \<in> set (nodes w)"
      by (auto simp add: n)
    then show "r < length (heap ?w') \<and> MeshNode.nodeId (heap ?w' ! r) = k"
    proof
      assume "(k, r) = (?k, ?v)"
      then show ?thesis by (simp add: h MeshNode_new_def)
    next
      assume "(k, r) \<in> set (nodes w)"
      with valid have "r < ?v" "MeshNode.nodeId (heap w ! r) = k" by auto
      then show ?thesis by (simp add: h nth_append)
    qed
  qed
  moreover from assms
  have "list_all (\<lambda>n. count_list (eventEmitter n) (OnBroadcast Route) = 1) (heap ?w')"
    by (simp add: h network_ok_def)
  ultimately show ?thesis by (simp add: network_ok_def)
qed

lemma network_ok_same_identity:
  assumes "network_ok w" "nodes w' = nodes w" "length (heap w') = length (heap w)"
    and "\<forall>r < length (heap w).
           MeshNode.nodeId (heap w' ! r) = MeshNode.nodeId (heap w ! r)
           \<and> count_list (eventEmitter (heap w' ! r)) (OnBroadcast Route)
               = count_list (eventEmitter (heap w ! r)) (OnBroadcast Route)"
  shows "network_ok w'"
proof -
  from assms(1) have "list_all (\<lambda>(k, r). r < length (heap w) \<and> MeshNode.nodeId (heap w ! r) = k)
      (nodes w)" by (simp add: network_ok_def)
  with assms(2-4)
  have "list_all (\<lambda>(k, r). r < length (heap w') \<and> MeshNode.nodeId (heap w' ! r) = k)
      (nodes w')"
    by (auto simp add: list_all_iff)
  moreover from assms(1,3,4)
  have "list_all (\<lambda>n. count_list (eventEmitter n) (OnBroadcast Route) = 1) (heap w')"
    by (simp add: network_ok_def list_all_length)
  ultimately show ?thesis using assms(1,2) by (simp add: network_ok_def)
qed

lemma network_ok_add_listener:
  assumes "network_ok w" "add_listener l r w = Some w'" "l \<noteq> OnBroadcast Route"
  shows "network_ok w'"
proof -
  from assms(2) have r: "r < length (heap w)"
    and w': "w' = w\<lparr>heap := (heap w)[r := (heap w ! r)\<lparr>eventEmitter :=
                          eventEmitter (heap w ! r) @ [l]\<rparr>]\<rparr>"
    by (auto elim: add_listener_SomeE)
  from assms(3) have "\<forall>r' < length (heap w).
           MeshNode.nodeId (heap w' ! r') = MeshNode.nodeId (heap w ! r')
           \<and> count_list (eventEmitter (heap w' ! r')) (OnBroadcast Route)
               = count_list (eventEmitter (heap w ! r')) (OnBroadcast Route)"
    using r by (auto simp add: w' nth_list_update)
  moreover have "nodes w' = nodes w" "length (heap w') = length (heap w)"
    by (simp_all add: w')
  ultimately show ?thesis using assms(1) by (intro network_ok_same_identity [of w w'])
qed

lemma api_step_network_ok:
  assumes "network_ok w" "api_step c w = Some w'"
  shows "network_ok w'"
proof (cases c)
  case (CreateNode config)
  with assms show ?thesis using network_ok_createNode [of w config] by auto
next
  case (RemoveNode k)
  with assms show ?thesis using network_ok_removeNode [of w k] by auto
next
  case (NodeBroadcast r d)
  with assms show ?thesis by (auto intro: network_ok_extends broadcast_extends)
next
  case (NodeReceive r m)
  with assms show ?thesis by (auto intro: network_ok_extends receive_extends)
next
  case (NodeSync r t)
  with assms show ?thesis by (auto intro: network_ok_extends sync_extends)
next
  case (NodeOnBroadcast r k)
  with assms show ?thesis by (auto simp add: onBroadcast_def intro: network_ok_add_listener)
next
  case (NodeOnMessage r k)
  with assms show ?thesis by (auto simp add: onMessage_def intro: network_ok_add_listener)
next
  case (NodeOnError r k)
  with assms show ?thesis by (auto simp add: onError_def intro: network_ok_add_listener)
next
  case (NodeOnSync r k)
  with assms show ?thesis by (auto simp add: onSync_def intro: network_ok_add_listener)
qed

lemma run_network_ok: "network_ok w \<Longrightarrow> run calls w = Some w' \<Longrightarrow> network_ok w'"
proof (induction calls arbitrary: w)
  case Nil
  then show ?case by simp
next
  case (Cons c calls)
  then obtain w1 where w1: "api_step c w = Some w1" "run calls w1 = Some w'"
    by (auto split: Option.bind_splits)
  from api_step_network_ok [OF Cons.prems(1) w1(1)] w1(2) show ?case by (rule Cons.IH)
qed

lemma reachable_network_ok: "run calls MeshNetwork_new = Some w \<Longrightarrow> network_ok w"
  using network_ok_new by (rule run_network_ok)
section \<open>The sequence generator: range and digital root\<close>





section \<open>Observer statistics\<close>

text \<open>
  C1 as stated fails: an observer that has observed nothing reports a success rate of 0,
  not 100.
\<close>

theorem getStatistics_empty_counterexample:
  "totalObserved (getStatistics (MeshObserver_new \<lparr>seed = 7, phaseResetInterval = 100\<rparr>)) = 0
   \<and> successRate (getStatistics (MeshObserver_new \<lparr>seed = 7, phaseResetInterval = 100\<rparr>))
       \<noteq> 100"
  by (simp add: getStatistics_def MeshObserver_new_def Let_def)

text \<open>
  C1, amended. For every observer, \<open>getStatistics\<close> returns \<open>successRate = 0\<close> when
  \<open>totalObserved = 0\<close>; that is the case right after construction and right after
  \<open>clearHistory\<close>.
\<close>

theorem getStatistics_empty:
  "(totalObserved (getStatistics ob) = 0 \<longrightarrow> successRate (getStatistics ob) = 0)
   \<and> totalObserved (getStatistics (MeshObserver_new config)) = 0
   \<and> successRate (getStatistics (MeshObserver_new config)) = 0
   \<and> totalObserved (getStatistics (clearHistory ob)) = 0
   \<and> successRate (getStatistics (clearHistory ob)) = 0"
  by (simp add: getStatistics_def MeshObserver_new_def clearHistory_def Let_def)

theorem getStatistics_empty_witness:
  "totalObserved (getStatistics (MeshObserver_new \<lparr>seed = 7, phaseResetInterval = 100\<rparr>)) = 0
   \<and> successRate (getStatistics (MeshObserver_new \<lparr>seed = 7, phaseResetInterval = 100\<rparr>)) = 0"
  using getStatistics_empty
    [of "MeshObserver_new \<lparr>seed = 7, phaseResetInterval = 100\<rparr>"
        "\<lparr>seed = 7, phaseResetInterval = 100\<rparr>"]
  by (simp add: getStatistics_def MeshObserver_new_def Let_def)

section \<open>Construction\<close>

text \<open>
  C2 as stated fails: \<open>createNode\<close> with an empty node id and a negative interval raises
  nothing; it builds the node, with the interval as given, and registers it.
\<close>

theorem createNode_invalid_counterexample:
  "\<not> validateNodeConfig \<lparr>seed = 7, phaseResetInterval = - 5, NodeConfig.nodeId = ''''\<rparr>
   \<and> fst (createNode \<lparr>seed = 7, phaseResetInterval = - 5, NodeConfig.nodeId = ''''\<rparr>
            MeshNetwork_new) = 0
   \<and> getNode '''' (snd (createNode \<lparr>seed = 7, phaseResetInterval = - 5, NodeConfig.nodeId = ''''\<rparr>
                          MeshNetwork_new)) = Some 0
   \<and> node_at (snd (createNode \<lparr>seed = 7, phaseResetInterval = - 5, NodeConfig.nodeId = ''''\<rparr>
                          MeshNetwork_new)) 0
       = Some \<lparr>nodeId = '''', pattern = PatternGenerator_new 7 (- 5),
               eventEmitter = [OnBroadcast Route], globalStep = 0\<rparr>"
  by (simp add: validateNodeConfig_def createNode_def MeshNetwork_new_def MeshNode_new_def
      getNode_def node_at_def Let_def)

text \<open>
  C2, amended. Construction checks nothing. For every configuration, whatever its
  interval and node id, \<open>createNode\<close> returns a new node with step 0, an empty cache and
  the seed and interval as given, registered under the node id; the generator's
  constructor likewise stores its arguments unchanged.
\<close>

theorem createNode_accepts_any_config:
  "fst (createNode config w) = length (heap w)
   \<and> getNode (NodeConfig.nodeId config) (snd (createNode config w)) = Some (length (heap w))
   \<and> node_at (snd (createNode config w)) (length (heap w))
       = Some \<lparr>nodeId = NodeConfig.nodeId config,
               pattern = PatternGenerator_new (seed config) (phaseResetInterval config),
               eventEmitter = [OnBroadcast Route], globalStep = 0\<rparr>
   \<and> seed (PatternGenerator_new s r) = s
   \<and> phaseResetInterval (PatternGenerator_new s r) = r
   \<and> cache (PatternGenerator_new s r) = Map.empty"
  by (simp add: createNode_def MeshNode_new_def getNode_def node_at_def Let_def
      PatternGenerator_new_def update_conv')
section \<open>Receiving a message\<close>

text \<open>
  C4. When the value the node's generator computes for the message's step differs
  (\<open>!==\<close>) from the message's pattern value, \<open>receive\<close> emits one event, the
  \<open>error\<close> event carrying \<open>pattern-mismatch\<close>, the message and the expected value; it
  emits no \<open>message\<close> event, and the node's \<open>globalStep\<close> is as before. The
  generator does compute a value whenever its interval is non-zero.
\<close>

theorem receive_mismatch:
  "(node < length (heap w)
      \<and> computeValue (pattern (heap w ! node)) (Message.globalStep message)
          = Some (expectedPattern, g')
      \<and> js_strict_neq expectedPattern (patternValue message)
    \<longrightarrow> (\<exists>w'. receive node message w = Some w'
           \<and> emits node (trace w')
               = emits node (trace w)
                 @ [(ErrorEv, ErrorPayload ''pattern-mismatch'' message expectedPattern)]
           \<and> MeshNode.globalStep (heap w' ! node) = MeshNode.globalStep (heap w ! node)))
   \<and> (phaseResetInterval (pattern (heap w ! node)) \<noteq> 0
    \<longrightarrow> (\<exists>e g. computeValue (pattern (heap w ! node)) (Message.globalStep message)
                 = Some (e, g)))"
proof (intro conjI impI)
  assume "node < length (heap w)
      \<and> computeValue (pattern (heap w ! node)) (Message.globalStep message)
          = Some (expectedPattern, g')
      \<and> js_strict_neq expectedPattern (patternValue message)"
  then show "\<exists>w'. receive node message w = Some w'
           \<and> emits node (trace w')
               = emits node (trace w)
                 @ [(ErrorEv, ErrorPayload ''pattern-mismatch'' message expectedPattern)]
           \<and> MeshNode.globalStep (heap w' ! node) = MeshNode.globalStep (heap w ! node)"
    by (simp add: receive_eq received_def receive_calls_of_def emits_emit_calls)
next
  assume "phaseResetInterval (pattern (heap w ! node)) \<noteq> 0"
  from computeValue_total [OF this, of "Message.globalStep message"]
  show "\<exists>e g. computeValue (pattern (heap w ! node)) (Message.globalStep message)
                 = Some (e, g)"
    by blast
qed

theorem receive_mismatch_witness:
  "\<exists>w'. receive 0
           \<lparr>senderId = ''p'', globalStep = 0, patternValue = Num 9, data = ''{}''\<rparr>
           (snd (createNode \<lparr>seed = 7, phaseResetInterval = 100, NodeConfig.nodeId = ''n''\<rparr>
                   MeshNetwork_new))
         = Some w'
       \<and> emits 0 (trace w')
           = [(ErrorEv, ErrorPayload ''pattern-mismatch''
                 \<lparr>senderId = ''p'', globalStep = 0, patternValue = Num 9, data = ''{}''\<rparr>
                 (Num 7))]
       \<and> MeshNode.globalStep (heap w' ! 0) = 0"
  using receive_mismatch
    [where node = 0
       and w = "snd (createNode \<lparr>seed = 7, phaseResetInterval = 100, NodeConfig.nodeId = ''n''\<rparr>
                       MeshNetwork_new)"
       and message = "\<lparr>senderId = ''p'', globalStep = 0, patternValue = Num 9, data = ''{}''\<rparr>"
       and expectedPattern = "Num 7"
       and g' = "(PatternGenerator_new 7 100)\<lparr>cache := [0 \<mapsto> Num 7]\<rparr>"]
  by (simp add: createNode_def MeshNetwork_new_def MeshNode_new_def Let_def
      computeValue_reset PatternGenerator_new_def)

text \<open>
  C8. A message whose step is at or below the node's own, and whose pattern value is
  (\<open>===\<close>) the value the node's generator computes for that step, is accepted:
  \<open>receive\<close> emits one event, the \<open>message\<close> event with the message, and the node's
  \<open>globalStep\<close> is exactly as before. Nothing distinguishes a replay. The generator
  does compute a value whenever its interval is non-zero.
\<close>

theorem receive_stale_accepted:
  "(node < length (heap w)
      \<and> 0 \<le> Message.globalStep message
      \<and> Message.globalStep message \<le> MeshNode.globalStep (heap w ! node)
      \<and> computeValue (pattern (heap w ! node)) (Message.globalStep message)
          = Some (expectedPattern, g')
      \<and> js_strict_eq expectedPattern (patternValue message)
    \<longrightarrow> (\<exists>w'. receive node message w = Some w'
           \<and> emits node (trace w')
               = emits node (trace w) @ [(MessageEv, MessagePayload message)]
           \<and> MeshNode.globalStep (heap w' ! node) = MeshNode.globalStep (heap w ! node)))
   \<and> (phaseResetInterval (pattern (heap w ! node)) \<noteq> 0
    \<longrightarrow> (\<exists>e g. computeValue (pattern (heap w ! node)) (Message.globalStep message)
                 = Some (e, g)))"
proof (intro conjI impI)
  assume "node < length (heap w)
      \<and> 0 \<le> Message.globalStep message
      \<and> Message.globalStep message \<le> MeshNode.globalStep (heap w ! node)
      \<and> computeValue (pattern (heap w ! node)) (Message.globalStep message)
          = Some (expectedPattern, g')
      \<and> js_strict_eq expectedPattern (patternValue message)"
  then show "\<exists>w'. receive node message w = Some w'
           \<and> emits node (trace w')
               = emits node (trace w) @ [(MessageEv, MessagePayload message)]
           \<and> MeshNode.globalStep (heap w' ! node) = MeshNode.globalStep (heap w ! node)"
    by (simp add: receive_eq received_def receive_calls_of_def emits_emit_calls
        js_strict_eq_def synced_def sync_calls_def)
next
  assume "phaseResetInterval (pattern (heap w ! node)) \<noteq> 0"
  from computeValue_total [OF this, of "Message.globalStep message"]
  show "\<exists>e g. computeValue (pattern (heap w ! node)) (Message.globalStep message)
                 = Some (e, g)"
    by blast
qed

theorem receive_stale_accepted_witness:
  "\<exists>w'. receive 0
           \<lparr>senderId = ''p'', globalStep = 0, patternValue = Num 7, data = ''old''\<rparr>
           \<lparr>heap = [\<lparr>nodeId = ''n'', pattern = PatternGenerator_new 7 100,
                     eventEmitter = [OnBroadcast Route], globalStep = 5\<rparr>],
            nodes = [(''n'', 0)], trace = []\<rparr>
         = Some w'
       \<and> emits 0 (trace w')
           = [(MessageEv, MessagePayload
                \<lparr>senderId = ''p'', globalStep = 0, patternValue = Num 7, data = ''old''\<rparr>)]
       \<and> MeshNode.globalStep (heap w' ! 0) = 5"
  using receive_stale_accepted
    [where node = 0
       and w = "\<lparr>heap = [\<lparr>nodeId = ''n'', pattern = PatternGenerator_new 7 100,
                     eventEmitter = [OnBroadcast Route], globalStep = 5\<rparr>],
                 nodes = [(''n'', 0)], trace = []\<rparr>"
       and message = "\<lparr>senderId = ''p'', globalStep = 0, patternValue = Num 7, data = ''old''\<rparr>"
       and expectedPattern = "Num 7"
       and g' = "(PatternGenerator_new 7 100)\<lparr>cache := [0 \<mapsto> Num 7]\<rparr>"]
  by (simp add: computeValue_reset PatternGenerator_new_def js_strict_eq_def)
section \<open>Routing\<close>

text \<open>
  C7. In a network (its node ids distinct), a broadcast by a node registered under its
  own id has, when it returns, called \<open>receive\<close> exactly once, with the message, on
  every other registered node, and not at all on the sender. It returns whenever every
  interval is non-zero.
\<close>

theorem broadcast_reaches_each_peer_once:
  assumes "network_ok w"
    and "getNode (MeshNode.nodeId (heap w ! x)) w = Some x"
  shows "(\<forall>w'. broadcast x d w = Some w' \<longrightarrow>
            (\<exists>v g'. computeValue (pattern (heap w ! x)) (MeshNode.globalStep (heap w ! x))
                       = Some (v, g')
               \<and> (\<forall>(k, r) \<in> set (nodes w).
                     receive_calls r (trace w')
                       = receive_calls r (trace w)
                         @ (if r = x then []
                            else [\<lparr>senderId = MeshNode.nodeId (heap w ! x),
                                   globalStep = MeshNode.globalStep (heap w ! x),
                                   patternValue = v, data = d\<rparr>]))))
         \<and> (intervals_ok w \<longrightarrow> (\<exists>w'. broadcast x d w = Some w'))"
proof (intro conjI allI impI)
  from assms(2) have reg: "(MeshNode.nodeId (heap w ! x), x) \<in> set (nodes w)"
    by (simp add: getNode_def map_of_SomeD)
  with assms(1) have x: "x < length (heap w)" by (auto dest: network_ok_entry)
  {
    assume "intervals_ok w"
    with assms(1) x show "\<exists>w'. broadcast x d w = Some w'"
      by (intro broadcast_total network_ok_refs_ok)
  }
  fix w'
  assume b: "broadcast x d w = Some w'"
  from assms(1) x have once: "count_list (eventEmitter (heap w ! x)) (OnBroadcast Route) = 1"
    by (rule network_ok_route_once)
  from assms(1) have dk: "distinct (map fst (nodes w))" and ds: "distinct (map snd (nodes w))"
    by (simp_all add: network_ok_def)
  from b obtain v g' where
    c: "computeValue (pattern (heap w ! x)) (MeshNode.globalStep (heap w ! x)) = Some (v, g')"
    and calls: "\<forall>r. receive_calls r (trace w')
          = receive_calls r (trace w)
            @ concat (replicate (count_list (eventEmitter (heap w ! x)) (OnBroadcast Route))
                (deliveries r
                   \<lparr>senderId = MeshNode.nodeId (heap w ! x),
                    globalStep = MeshNode.globalStep (heap w ! x), patternValue = v, data = d\<rparr>
                   (nodes w)))"
    using broadcast_calls [of x d w w'] by blast
  let ?m = "\<lparr>senderId = MeshNode.nodeId (heap w ! x),
             globalStep = MeshNode.globalStep (heap w ! x), patternValue = v, data = d\<rparr>"
  have "\<forall>(k, r) \<in> set (nodes w).
          receive_calls r (trace w')
            = receive_calls r (trace w) @ (if r = x then [] else [?m])"
  proof (clarify)
    fix k r
    assume e: "(k, r) \<in> set (nodes w)"
    from ds e have del: "deliveries r ?m (nodes w) = (if k \<noteq> senderId ?m then [?m] else [])"
      by (rule deliveries_registered)
    have "k = MeshNode.nodeId (heap w ! x) \<longleftrightarrow> r = x"
    proof
      assume "k = MeshNode.nodeId (heap w ! x)"
      with dk e reg show "r = x" by (auto dest: eq_key_imp_eq_value)
    next
      assume "r = x"
      with assms(1) e show "k = MeshNode.nodeId (heap w ! x)" by (auto dest: network_ok_entry)
    qed
    with del calls [rule_format, of r] once
    show "receive_calls r (trace w') = receive_calls r (trace w) @ (if r = x then [] else [?m])"
      by simp
  qed
  with c show "\<exists>v g'. computeValue (pattern (heap w ! x)) (MeshNode.globalStep (heap w ! x))
                       = Some (v, g')
               \<and> (\<forall>(k, r) \<in> set (nodes w).
                     receive_calls r (trace w')
                       = receive_calls r (trace w)
                         @ (if r = x then []
                            else [\<lparr>senderId = MeshNode.nodeId (heap w ! x),
                                   globalStep = MeshNode.globalStep (heap w ! x),
                                   patternValue = v, data = d\<rparr>]))"
    by blast
qed

theorem broadcast_reaches_each_peer_once_witness:
  "\<exists>w'. broadcast 0 ''hello'' three_nodes = Some w'
     \<and> receive_calls 0 (trace w') = []
     \<and> receive_calls 1 (trace w')
         = [\<lparr>senderId = ''A'', globalStep = 0, patternValue = Num 7, data = ''hello''\<rparr>]
     \<and> receive_calls 2 (trace w')
         = [\<lparr>senderId = ''A'', globalStep = 0, patternValue = Num 7, data = ''hello''\<rparr>]"
proof -
  have reg: "getNode (MeshNode.nodeId (heap three_nodes ! 0)) three_nodes = Some 0"
    by (simp add: three_nodes_eq getNode_def)
  note t = broadcast_reaches_each_peer_once [OF three_nodes_ok(1) reg, of "''hello''"]
  from t three_nodes_ok(2) obtain w' where b: "broadcast 0 ''hello'' three_nodes = Some w'"
    by blast
  with t three_nodes_value
  have "\<forall>(k, r) \<in> set (nodes three_nodes).
          receive_calls r (trace w')
            = receive_calls r (trace three_nodes)
              @ (if r = 0 then []
                 else [\<lparr>senderId = MeshNode.nodeId (heap three_nodes ! 0),
                        globalStep = MeshNode.globalStep (heap three_nodes ! 0),
                        patternValue = Num 7, data = ''hello''\<rparr>])"
    by auto
  then have "receive_calls 0 (trace w') = []"
    "receive_calls 1 (trace w')
       = [\<lparr>senderId = ''A'', globalStep = 0, patternValue = Num 7, data = ''hello''\<rparr>]"
    "receive_calls 2 (trace w')
       = [\<lparr>senderId = ''A'', globalStep = 0, patternValue = Num 7, data = ''hello''\<rparr>]"
    by (simp_all add: three_nodes_eq)
  with b show ?thesis by blast
qed


text \<open>
  C9. \<open>removeNode\<close> only deletes the map entry; the removed node keeps the routing
  closure. After \<open>removeNode\<close> of its id, a broadcast by the removed node calls
  \<open>receive\<close> exactly once, with the message, on every node still registered.
\<close>

theorem removed_node_still_broadcasts:
  assumes "network_ok w" and "x < length (heap w)"
  shows "getNode (MeshNode.nodeId (heap w ! x)) (removeNode (MeshNode.nodeId (heap w ! x)) w)
           = None
         \<and> (\<forall>w'. broadcast x d (removeNode (MeshNode.nodeId (heap w ! x)) w) = Some w' \<longrightarrow>
              (\<exists>v g'. computeValue (pattern (heap w ! x)) (MeshNode.globalStep (heap w ! x))
                         = Some (v, g')
                 \<and> (\<forall>(k, r) \<in> set (nodes (removeNode (MeshNode.nodeId (heap w ! x)) w)).
                       receive_calls r (trace w')
                         = receive_calls r (trace w)
                           @ [\<lparr>senderId = MeshNode.nodeId (heap w ! x),
                                globalStep = MeshNode.globalStep (heap w ! x),
                                patternValue = v, data = d\<rparr>])))
         \<and> (intervals_ok w \<longrightarrow>
              (\<exists>w'. broadcast x d (removeNode (MeshNode.nodeId (heap w ! x)) w) = Some w'))"
proof (intro conjI allI impI)
  let ?id = "MeshNode.nodeId (heap w ! x)"
  let ?w0 = "removeNode ?id w"
  have h: "heap ?w0 = heap w" "trace ?w0 = trace w" by (simp_all add: removeNode_def)
  from assms(1) have ok: "network_ok ?w0" by (rule network_ok_removeNode)
  show "getNode ?id ?w0 = None"
    by (simp add: getNode_def removeNode_def delete_conv')
  {
    assume "intervals_ok w"
    then have "intervals_ok ?w0" by (simp add: intervals_ok_def h)
    with ok assms(2) show "\<exists>w'. broadcast x d ?w0 = Some w'"
      by (intro broadcast_total network_ok_refs_ok) (simp_all add: h)
  }
  fix w'
  assume b: "broadcast x d ?w0 = Some w'"
  from ok assms(2) have once: "count_list (eventEmitter (heap w ! x)) (OnBroadcast Route) = 1"
    using network_ok_route_once [of ?w0 x] by (simp add: h)
  from ok have ds: "distinct (map snd (nodes ?w0))" by (simp add: network_ok_def)
  from b obtain v g' where
    c: "computeValue (pattern (heap w ! x)) (MeshNode.globalStep (heap w ! x)) = Some (v, g')"
    and calls: "\<forall>r. receive_calls r (trace w')
          = receive_calls r (trace w)
            @ concat (replicate (count_list (eventEmitter (heap w ! x)) (OnBroadcast Route))
                (deliveries r
                   \<lparr>senderId = ?id,
                    globalStep = MeshNode.globalStep (heap w ! x), patternValue = v, data = d\<rparr>
                   (nodes ?w0)))"
    using broadcast_calls [of x d ?w0 w'] by (auto simp add: h)
  let ?m = "\<lparr>senderId = ?id,
             globalStep = MeshNode.globalStep (heap w ! x), patternValue = v, data = d\<rparr>"
  have "\<forall>(k, r) \<in> set (nodes ?w0).
          receive_calls r (trace w') = receive_calls r (trace w) @ [?m]"
  proof (clarify)
    fix k r
    assume e: "(k, r) \<in> set (nodes ?w0)"
    then have "k \<noteq> ?id" by (simp add: removeNode_entries)
    moreover from ds e
    have "deliveries r ?m (nodes ?w0) = (if k \<noteq> senderId ?m then [?m] else [])"
      by (rule deliveries_registered)
    ultimately show "receive_calls r (trace w') = receive_calls r (trace w) @ [?m]"
      using calls [rule_format, of r] once by simp
  qed
  with c show "\<exists>v g'. computeValue (pattern (heap w ! x)) (MeshNode.globalStep (heap w ! x))
                         = Some (v, g')
                 \<and> (\<forall>(k, r) \<in> set (nodes ?w0).
                       receive_calls r (trace w')
                         = receive_calls r (trace w)
                           @ [\<lparr>senderId = ?id,
                                globalStep = MeshNode.globalStep (heap w ! x),
                                patternValue = v, data = d\<rparr>])"
    by blast
qed

theorem removed_node_still_broadcasts_witness:
  "getNode ''A'' (removeNode ''A'' three_nodes) = None
   \<and> (\<exists>w'. broadcast 0 ''bye'' (removeNode ''A'' three_nodes) = Some w'
        \<and> receive_calls 1 (trace w')
            = [\<lparr>senderId = ''A'', globalStep = 0, patternValue = Num 7, data = ''bye''\<rparr>]
        \<and> receive_calls 2 (trace w')
            = [\<lparr>senderId = ''A'', globalStep = 0, patternValue = Num 7, data = ''bye''\<rparr>])"
proof -
  have x: "0 < length (heap three_nodes)" by (simp add: three_nodes_eq)
  have id: "MeshNode.nodeId (heap three_nodes ! 0) = ''A''" by (simp add: three_nodes_eq)
  note t = removed_node_still_broadcasts [OF three_nodes_ok(1) x, of "''bye''", unfolded id]
  from t three_nodes_ok(2) obtain w' where
    b: "broadcast 0 ''bye'' (removeNode ''A'' three_nodes) = Some w'"
    by blast
  with t three_nodes_value
  have "\<forall>(k, r) \<in> set (nodes (removeNode ''A'' three_nodes)).
          receive_calls r (trace w')
            = receive_calls r (trace three_nodes)
              @ [\<lparr>senderId = ''A'',
                   globalStep = MeshNode.globalStep (heap three_nodes ! 0),
                   patternValue = Num 7, data = ''bye''\<rparr>]"
    by auto
  then have "receive_calls 1 (trace w')
       = [\<lparr>senderId = ''A'', globalStep = 0, patternValue = Num 7, data = ''bye''\<rparr>]"
    "receive_calls 2 (trace w')
       = [\<lparr>senderId = ''A'', globalStep = 0, patternValue = Num 7, data = ''bye''\<rparr>]"
    by (simp_all add: three_nodes_eq removeNode_def)
  with b t show ?thesis by blast
qed
section \<open>The step counter\<close>

text \<open>
  C5. \<open>globalStep\<close> never decreases: after any sequence of calls on the network and its
  nodes (a single \<open>broadcast\<close>, \<open>receive\<close> or \<open>sync\<close> is a sequence of one), every
  node's step is at least what it was. Each of the three calls returns on an existing
  node when every interval is non-zero.
\<close>

theorem globalStep_monotone:
  "(run calls w = Some w' \<and> node < length (heap w) \<longrightarrow>
      node < length (heap w') \<and> node_step node w \<le> node_step node w')
   \<and> (network_ok w \<and> intervals_ok w \<and> node < length (heap w) \<longrightarrow>
        (\<exists>w1. broadcast node d w = Some w1)
        \<and> (\<exists>w2. receive node message w = Some w2)
        \<and> (\<exists>w3. sync node targetStep w = Some w3))"
proof (intro conjI impI)
  assume a: "run calls w = Some w' \<and> node < length (heap w)"
  then have "grows w w'" by (blast intro: run_grows)
  with a show "node < length (heap w')" "node_step node w \<le> node_step node w'"
    by (simp_all add: grows_def)
next
  assume a: "network_ok w \<and> intervals_ok w \<and> node < length (heap w)"
  then show "\<exists>w1. broadcast node d w = Some w1"
    by (intro broadcast_total network_ok_refs_ok) simp_all
  from a show "\<exists>w2. receive node message w = Some w2"
    by (intro receive_total) simp_all
  from a show "\<exists>w3. sync node targetStep w = Some w3"
    by (intro sync_total) simp
qed

theorem globalStep_monotone_witness:
  "\<exists>w'. run [NodeBroadcast 0 ''x'', NodeSync 1 5,
              NodeReceive 1 \<lparr>senderId = ''A'', globalStep = 0, patternValue = Num 7,
                             data = ''again''\<rparr>] three_nodes = Some w'
       \<and> node_step 1 three_nodes \<le> node_step 1 w'"
proof -
  have x: "(1::nat) < length (heap three_nodes)" by (simp add: three_nodes_eq)
  let ?c1 = "NodeBroadcast 0 ''x''" and ?c2 = "NodeSync 1 5"
    and ?c3 = "NodeReceive 1 \<lparr>senderId = ''A'', globalStep = 0, patternValue = Num 7,
                              data = ''again''\<rparr>"
  note step = globalStep_monotone [THEN conjunct2, rule_format]
  have ok0: "network_ok three_nodes \<and> intervals_ok three_nodes \<and> 0 < length (heap three_nodes)"
    using three_nodes_ok by (simp add: three_nodes_eq)
  from step [OF ok0] obtain w1 where w1: "broadcast 0 ''x'' three_nodes = Some w1" by blast
  from broadcast_extends [OF w1] have e1: "extends three_nodes w1" .
  with three_nodes_ok x
  have ok1: "network_ok w1 \<and> intervals_ok w1 \<and> 1 < length (heap w1)"
    by (auto intro: network_ok_extends intervals_ok_extends simp add: extends_def)
  from step [OF ok1] obtain w2 where w2: "sync 1 5 w1 = Some w2" by blast
  from sync_extends [OF w2] have e2: "extends w1 w2" .
  with ok1 have ok2: "network_ok w2 \<and> intervals_ok w2 \<and> 1 < length (heap w2)"
    by (auto intro: network_ok_extends intervals_ok_extends simp add: extends_def)
  from step [OF ok2] obtain w3 where
    w3: "receive 1 \<lparr>senderId = ''A'', globalStep = 0, patternValue = Num 7,
                    data = ''again''\<rparr> w2 = Some w3"
    by blast
  from w1 w2 w3 have r: "run [?c1, ?c2, ?c3] three_nodes = Some w3" by simp
  with globalStep_monotone [THEN conjunct1, rule_format, of "[?c1, ?c2, ?c3]" three_nodes w3 1] x
  show ?thesis by blast
qed

section \<open>Two nodes\<close>

text \<open>
  C3 as stated fails in one part: after \<open>A\<close> broadcasts at step 0, \<open>B\<close> has received
  the message and its callback has run, but \<open>B\<close>'s step is still 0, not 1 or more: the
  message carries step 0, and \<open>sync\<close> moves a node only to a larger step.
\<close>

theorem two_nodes_counterexample:
  "map_option (node_step 1)
     (run [CreateNode (demo_config ''A''), CreateNode (demo_config ''B''),
           NodeOnMessage 1 0, NodeBroadcast 0 ''x''] MeshNetwork_new)
   = Some 0"
  by (simp add: demo_config_def createNode_def MeshNetwork_new_def MeshNode_new_def Let_def
      onMessage_def add_listener_def node_at_def put_node_def broadcast_def
      computeValue_reset PatternGenerator_new_def emit_broadcast_def record_call_def
      network_broadcast_def receive_def sync_def emit_def incrementStep_def
      List.map_filter_simps node_step_def)

text \<open>
  C3, amended. In a network holding two fresh nodes \<open>A\<close> and \<open>B\<close> with different ids
  and the same seed and non-zero interval, when \<open>A\<close> broadcasts at its step 0, \<open>B\<close>'s
  \<open>receive\<close> is called once, with the message; \<open>B\<close>'s callback registered with
  \<open>onMessage\<close> is invoked exactly once, with the message; \<open>B\<close>'s step stays 0 and \<open>A\<close>'s
  becomes 1.
\<close>

theorem two_nodes_broadcast:
  assumes "idA \<noteq> idB" "r \<noteq> 0"
  shows "\<exists>w'. run [CreateNode \<lparr>seed = s, phaseResetInterval = r, NodeConfig.nodeId = idA\<rparr>,
                     CreateNode \<lparr>seed = s, phaseResetInterval = r, NodeConfig.nodeId = idB\<rparr>,
                     NodeOnMessage 1 k, NodeBroadcast 0 d] MeshNetwork_new = Some w'
           \<and> receive_calls 1 (trace w')
               = [\<lparr>senderId = idA, globalStep = 0, patternValue = Num s, data = d\<rparr>]
           \<and> invocations 1 k (trace w')
               = [MessagePayload
                    \<lparr>senderId = idA, globalStep = 0, patternValue = Num s, data = d\<rparr>]
           \<and> node_step 1 w' = 0 \<and> node_step 0 w' = 1"
  using assms
  by (simp add: createNode_def MeshNetwork_new_def MeshNode_new_def Let_def
      onMessage_def add_listener_def node_at_def put_node_def broadcast_def
      computeValue_reset PatternGenerator_new_def emit_broadcast_def record_call_def
      network_broadcast_def receive_def sync_def emit_def incrementStep_def
      List.map_filter_simps node_step_def)

theorem two_nodes_broadcast_witness:
  "\<exists>w'. run [CreateNode \<lparr>seed = 7, phaseResetInterval = 100, NodeConfig.nodeId = ''A''\<rparr>,
              CreateNode \<lparr>seed = 7, phaseResetInterval = 100, NodeConfig.nodeId = ''B''\<rparr>,
              NodeOnMessage 1 0, NodeBroadcast 0 ''x''] MeshNetwork_new = Some w'
     \<and> receive_calls 1 (trace w')
         = [\<lparr>senderId = ''A'', globalStep = 0, patternValue = Num 7, data = ''x''\<rparr>]
     \<and> invocations 1 0 (trace w')
         = [MessagePayload
              \<lparr>senderId = ''A'', globalStep = 0, patternValue = Num 7, data = ''x''\<rparr>]
     \<and> node_step 1 w' = 0 \<and> node_step 0 w' = 1"
  using two_nodes_broadcast [of "''A''" "''B''" 100 7 0 "''x''"] by simp

end
